theory Spec2Isabelle
  imports Main "HOL-Library.Word"
begin

unbundle bit_operations_syntax

section \<open>Machine types and error codes\<close>

type_synonym u8 = "8 word"
type_synonym u32 = "32 word"
type_synonym u64 = "64 word"

text \<open>
  The negative error codes the two source files return.  A C function returning
  \<^verbatim>\<open>-EINVAL\<close> is modelled as returning \<open>Inl EINVAL\<close>.
\<close>

datatype errno = EPERM | ENOENT | E2BIG | ENOMEM | EFAULT | EEXIST | EINVAL | EOPNOTSUPP

section \<open>kernel/bpf/stackmap.c\<close>

subsection \<open>Constants of headers that the file includes\<close>

text \<open>
  Modelled from the spec: the platform frame-depth ceiling \<^verbatim>\<open>PERF_MAX_STACK_DEPTH\<close>
  (linux/perf_event.h) and the flag layout of the stack-capture call
  (uapi/linux/bpf.h: skip-frame count, user-stack selection, fast-compare toggle,
  reuse-on-collision toggle) are not part of the two source files; they carry the
  values of the kernel headers.
\<close>

definition PERF_MAX_STACK_DEPTH :: u32 where
  "PERF_MAX_STACK_DEPTH = 127"

definition BPF_F_SKIP_FIELD_MASK :: u64 where
  "BPF_F_SKIP_FIELD_MASK = 0xff"

definition BPF_F_USER_STACK :: u64 where
  "BPF_F_USER_STACK = push_bit 8 1"

definition BPF_F_FAST_STACK_CMP :: u64 where
  "BPF_F_FAST_STACK_CMP = push_bit 9 1"

definition BPF_F_REUSE_STACKID :: u64 where
  "BPF_F_REUSE_STACKID = push_bit 10 1"

subsection \<open>Data\<close>

text \<open>\<^verbatim>\<open>struct stack_map_bucket\<close>; the \<^verbatim>\<open>rcu\<close> head is bookkeeping of the
  deferred free and is represented by the event \<open>Kfree_rcu\<close> below.\<close>

record stack_map_bucket =
  hash :: u32
  nr :: u32
  ip :: "u64 list"

text \<open>\<^verbatim>\<open>struct bpf_stack_map\<close> with the fields of the embedded \<^verbatim>\<open>struct bpf_map\<close>
  that the file writes.  A \<^verbatim>\<open>NULL\<close> bucket pointer is \<open>None\<close>.\<close>

record bpf_stack_map =
  map_type :: u32
  key_size :: u32
  value_size :: u32
  max_entries :: u32
  pages :: u32
  n_buckets :: u32
  buckets :: "stack_map_bucket option list"

text \<open>\<^verbatim>\<open>struct perf_callchain_entry\<close>: the number of recorded frames and the
  frame buffer.\<close>

record perf_callchain_entry =
  pce_nr :: u64
  pce_ip :: "u64 list"

text \<open>What a call does to the allocator: \<^verbatim>\<open>kmalloc\<close> of a new bucket and
  \<^verbatim>\<open>kfree_rcu\<close> (deferred destruction) of an old one, in program order.\<close>

datatype kevent = Kmalloc stack_map_bucket | Kfree_rcu stack_map_bucket

subsection \<open>stack_map_alloc\<close>

text \<open>The attributes of the creation request that the function reads.\<close>

record bpf_attr =
  attr_map_type :: u32
  attr_key_size :: u32
  attr_value_size :: u32
  attr_max_entries :: u32

text \<open>
  What the function asks of the rest of the kernel: \<^verbatim>\<open>capable(CAP_SYS_ADMIN)\<close>, whether
  \<^verbatim>\<open>kzalloc\<close> and the \<^verbatim>\<open>vzalloc\<close> fallback return memory, and the result of
  \<^verbatim>\<open>get_callchain_buffers()\<close> (\<open>None\<close> for 0, \<open>Some e\<close> for \<^verbatim>\<open>-e\<close>).
\<close>

record alloc_env =
  capable_sys_admin :: bool
  kzalloc_ok :: bool
  vzalloc_ok :: bool
  get_callchain_buffers :: "errno option"

text \<open>
  Modelled from the spec: \<^verbatim>\<open>roundup_pow_of_two\<close> (linux/log2.h), which rounds the
  capacity request up to the next power of two, \<^verbatim>\<open>round_up\<close>, \<^verbatim>\<open>U32_MAX\<close> and the page
  size are not part of the two source files.  \<^verbatim>\<open>roundup_pow_of_two(n)\<close> is
  \<^verbatim>\<open>1UL << fls_long(n - 1)\<close>, \<open>fls_long\<close> being the position of the highest set bit;
  \<^verbatim>\<open>round_up(x, y)\<close> is \<^verbatim>\<open>(((x) - 1) | ((y) - 1)) + 1\<close>; pages have 4096 bytes.
\<close>

definition PAGE_SHIFT :: nat where
  "PAGE_SHIFT = 12"

definition PAGE_SIZE :: u64 where
  "PAGE_SIZE = push_bit PAGE_SHIFT 1"

definition U32_MAX :: u32 where
  "U32_MAX = 0xffffffff"

fun fls_nat :: "nat \<Rightarrow> nat" where
  "fls_nat n = (if n = 0 then 0 else Suc (fls_nat (n div 2)))"

declare fls_nat.simps [simp del]

definition fls_long :: "u64 \<Rightarrow> nat" where
  "fls_long x = fls_nat (unat x)"

definition roundup_pow_of_two :: "u64 \<Rightarrow> u64" where
  "roundup_pow_of_two n = push_bit (fls_long (n - 1)) 1"

definition round_up :: "u64 \<Rightarrow> u64 \<Rightarrow> u64" where
  "round_up x y = (((x - 1) OR (y - 1)) + 1)"

text \<open>
  \<open>sizeof_smap\<close> is \<^verbatim>\<open>sizeof(*smap)\<close>, which depends on the layout of
  \<^verbatim>\<open>struct bpf_map\<close>; a bucket pointer has 8 bytes and
  \<^verbatim>\<open>struct stack_map_bucket\<close> 24 (the two-pointer \<^verbatim>\<open>rcu_head\<close> and two \<^verbatim>\<open>u32\<close>).  The
  cost is computed in 64 bits.  \<^verbatim>\<open>kzalloc\<close> and \<^verbatim>\<open>vzalloc\<close> return zeroed memory, so
  every bucket pointer of the new map is \<^verbatim>\<open>NULL\<close>.
\<close>

definition stack_map_alloc :: "alloc_env \<Rightarrow> u32 \<Rightarrow> bpf_attr \<Rightarrow> errno + bpf_stack_map" where
  "stack_map_alloc env sizeof_smap attr =
    (let value_size = attr_value_size attr in
     if \<not> capable_sys_admin env then Inl EPERM
     else if attr_max_entries attr = 0 \<or> attr_key_size attr \<noteq> 4 \<or>
             value_size < 8 \<or> value_size mod 8 \<noteq> 0 \<or>
             value_size div 8 > PERF_MAX_STACK_DEPTH
     then Inl EINVAL
     else
       (let n_buckets = roundup_pow_of_two (ucast (attr_max_entries attr));
            cost = n_buckets * 8 + ucast sizeof_smap
        in
        if cost \<ge> ucast U32_MAX - PAGE_SIZE then Inl E2BIG
        else if \<not> kzalloc_ok env \<and> \<not> vzalloc_ok env then Inl ENOMEM
        else
          (let cost = cost + n_buckets * (ucast value_size + 24) in
           if cost \<ge> ucast U32_MAX - PAGE_SIZE then Inl E2BIG
           else
             (case get_callchain_buffers env of
                Some err \<Rightarrow> Inl err
              | None \<Rightarrow>
                  Inr \<lparr> map_type = attr_map_type attr,
                        key_size = attr_key_size attr, value_size = value_size,
                        max_entries = attr_max_entries attr,
                        pages = ucast (drop_bit PAGE_SHIFT (round_up cost PAGE_SIZE)),
                        n_buckets = ucast n_buckets,
                        buckets = replicate (unat n_buckets) None \<rparr>))))"


subsection \<open>bpf_get_stackid\<close>

text \<open>The cast \<^verbatim>\<open>(u32 *)ips\<close>: each 64-bit frame is two 32-bit words, low word
  first (the platform is little-endian).\<close>

fun u32_view :: "u64 list \<Rightarrow> u32 list" where
  "u32_view [] = []"
| "u32_view (w # ws) = ucast w # ucast (drop_bit 32 w) # u32_view ws"

text \<open>
  \<^verbatim>\<open>jhash2\<close> (linux/jhash.h), \<^verbatim>\<open>get_perf_callchain\<close> and the success of
  \<^verbatim>\<open>kmalloc\<close> are inputs: \<open>jhash2 k len initval\<close>, \<open>get_perf_callchain init_nr kernel user\<close>
  (\<open>None\<close> is the \<^verbatim>\<open>NULL\<close> trace) and \<open>kmalloc_ok\<close>.  The result is the returned
  value, the map afterwards and the allocator events of the call.
\<close>

definition bpf_get_stackid ::
  "(u32 list \<Rightarrow> u32 \<Rightarrow> u32 \<Rightarrow> u32) \<Rightarrow> (u32 \<Rightarrow> bool \<Rightarrow> bool \<Rightarrow> perf_callchain_entry option) \<Rightarrow>
   bool \<Rightarrow> bpf_stack_map \<Rightarrow> u64 \<Rightarrow> (errno + u32) \<times> bpf_stack_map \<times> kevent list" where
  "bpf_get_stackid jhash2 get_perf_callchain kmalloc_ok smap flags =
    (let max_depth = value_size smap div 8;
         init_nr = PERF_MAX_STACK_DEPTH - max_depth;
         skip = (ucast (flags AND BPF_F_SKIP_FIELD_MASK) :: u32);
         user = (flags AND BPF_F_USER_STACK \<noteq> 0);
         kernel = (\<not> user)
     in
     if flags AND NOT (BPF_F_SKIP_FIELD_MASK OR BPF_F_USER_STACK OR
                       BPF_F_FAST_STACK_CMP OR BPF_F_REUSE_STACKID) \<noteq> 0
     then (Inl EINVAL, smap, [])
     else
       (case get_perf_callchain init_nr kernel user of
          None \<Rightarrow> (Inl EFAULT, smap, [])
        | Some trace \<Rightarrow>
           (let trace_nr0 = (ucast (pce_nr trace) :: u32) - init_nr in
            if trace_nr0 \<le> skip then (Inl EFAULT, smap, [])
            else
              (let trace_nr = trace_nr0 - skip;
                   trace_len = trace_nr * 8;
                   ips = drop (unat skip + unat init_nr) (pce_ip trace);
                   hash = jhash2 (take (unat (trace_len div 4)) (u32_view ips)) (trace_len div 4) 0;
                   id = hash AND (n_buckets smap - 1);
                   bucket = buckets smap ! unat id
               in
               if (case bucket of None \<Rightarrow> False
                   | Some b \<Rightarrow> stack_map_bucket.hash b = hash \<and>
                       (flags AND BPF_F_FAST_STACK_CMP \<noteq> 0 \<or>
                        (nr b = trace_nr \<and>
                         take (unat trace_len div 8) (ip b) = take (unat trace_len div 8) ips)))
               then (Inr id, smap, [])
               else if bucket \<noteq> None \<and> flags AND BPF_F_REUSE_STACKID = 0
               then (Inl EEXIST, smap, [])
               else if \<not> kmalloc_ok then (Inl ENOMEM, smap, [])
               else
                 (let new_bucket = \<lparr> hash = hash, nr = trace_nr,
                        ip = take (unat trace_len div 8) ips @
                             replicate (unat (value_size smap - trace_len) div 8) 0 \<rparr>;
                      old_bucket = buckets smap ! unat id;
                      smap' = smap \<lparr> buckets := (buckets smap)[unat id := Some new_bucket] \<rparr>
                  in (Inr id, smap',
                      Kmalloc new_bucket #
                      (case old_bucket of None \<Rightarrow> [] | Some b \<Rightarrow> [Kfree_rcu b])))))))"

subsection \<open>Map operations\<close>

text \<open>\<^verbatim>\<open>stack_map_lookup_elem\<close> returns a pointer to the bucket's frame buffer, or
  \<^verbatim>\<open>NULL\<close> (\<open>None\<close>).\<close>

definition stack_map_lookup_elem :: "bpf_stack_map \<Rightarrow> u32 \<Rightarrow> u64 list option" where
  "stack_map_lookup_elem smap key =
    (let id = key in
     if id \<ge> n_buckets smap then None
     else (case buckets smap ! unat id of None \<Rightarrow> None | Some bucket \<Rightarrow> Some (ip bucket)))"

definition stack_map_get_next_key :: "bpf_stack_map \<Rightarrow> u32 \<Rightarrow> errno + u32" where
  "stack_map_get_next_key smap key = Inl EINVAL"

definition stack_map_update_elem :: "bpf_stack_map \<Rightarrow> u32 \<Rightarrow> u64 list \<Rightarrow> u64 \<Rightarrow> errno + unit" where
  "stack_map_update_elem smap key val map_flags = Inl EINVAL"

definition stack_map_delete_elem ::
  "bpf_stack_map \<Rightarrow> u32 \<Rightarrow> (errno + unit) \<times> bpf_stack_map \<times> kevent list" where
  "stack_map_delete_elem smap key =
    (let id = key in
     if id \<ge> n_buckets smap then (Inl E2BIG, smap, [])
     else
       (let old_bucket = buckets smap ! unat id;
            smap' = smap \<lparr> buckets := (buckets smap)[unat id := None] \<rparr>
        in case old_bucket of
             Some b \<Rightarrow> (Inr (), smap', [Kfree_rcu b])
           | None \<Rightarrow> (Inl ENOENT, smap', [])))"

subsection \<open>Vocabulary for the properties\<close>

text \<open>
  The comment in \<open>bpf_get_stackid\<close> records what \<^verbatim>\<open>get_perf_callchain\<close> guarantees:
  \<^verbatim>\<open>trace->nr >= init_nr\<close> and \<^verbatim>\<open>trace->nr <= PERF_MAX_STACK_DEPTH\<close>; the frame buffer
  of the entry has \<^verbatim>\<open>PERF_MAX_STACK_DEPTH\<close> slots.
\<close>

definition callchain_ok :: "u32 \<Rightarrow> perf_callchain_entry \<Rightarrow> bool" where
  "callchain_ok init_nr trace =
    (unat init_nr \<le> unat (pce_nr trace) \<and> unat (pce_nr trace) \<le> unat PERF_MAX_STACK_DEPTH \<and>
     length (pce_ip trace) = unat PERF_MAX_STACK_DEPTH)"

definition callchains_ok :: "(u32 \<Rightarrow> bool \<Rightarrow> bool \<Rightarrow> perf_callchain_entry option) \<Rightarrow> bool" where
  "callchains_ok get_perf_callchain =
    (\<forall>init_nr kernel user trace.
       get_perf_callchain init_nr kernel user = Some trace \<longrightarrow> callchain_ok init_nr trace)"


text \<open>The flags carry no bit outside the four fields the call knows.\<close>

definition flags_valid :: "u64 \<Rightarrow> bool" where
  "flags_valid flags =
    (flags AND NOT (BPF_F_SKIP_FIELD_MASK OR BPF_F_USER_STACK OR
                    BPF_F_FAST_STACK_CMP OR BPF_F_REUSE_STACKID) = 0)"


text \<open>
  What \<^verbatim>\<open>stack_map_alloc\<close> establishes for a map: a non-zero bucket count, a bucket
  array of that many slots, and at most \<^verbatim>\<open>PERF_MAX_STACK_DEPTH\<close> frames per value.
\<close>

definition smap_wf :: "bpf_stack_map \<Rightarrow> bool" where
  "smap_wf smap =
    (n_buckets smap \<noteq> 0 \<and> length (buckets smap) = unat (n_buckets smap) \<and>
     value_size smap div 8 \<le> PERF_MAX_STACK_DEPTH)"

text \<open>
  The frames a call works on, as \<open>bpf_get_stackid\<close> computes them: the trace captured
  for the flags, without the \<open>init_nr\<close> unused leading slots and the \<open>skip\<close> skipped
  frames.  \<open>None\<close> covers the two \<^verbatim>\<open>-EFAULT\<close> exits (no trace, or no frame left after
  skipping).
\<close>

definition captured_frames ::
  "(u32 \<Rightarrow> bool \<Rightarrow> bool \<Rightarrow> perf_callchain_entry option) \<Rightarrow> bpf_stack_map \<Rightarrow> u64 \<Rightarrow> u64 list option" where
  "captured_frames get_perf_callchain smap flags =
    (let init_nr = PERF_MAX_STACK_DEPTH - value_size smap div 8;
         skip = (ucast (flags AND BPF_F_SKIP_FIELD_MASK) :: u32);
         user = (flags AND BPF_F_USER_STACK \<noteq> 0)
     in case get_perf_callchain init_nr (\<not> user) user of
          None \<Rightarrow> None
        | Some trace \<Rightarrow>
            (let trace_nr0 = (ucast (pce_nr trace) :: u32) - init_nr in
             if trace_nr0 \<le> skip then None
             else Some (take (unat (trace_nr0 - skip))
                          (drop (unat skip + unat init_nr) (pce_ip trace)))))"

text \<open>The hash of the frames (\<^verbatim>\<open>jhash2\<close> over their 32-bit words, initial value 0) and
  the bucket index derived from it.\<close>

definition stack_hash :: "(u32 list \<Rightarrow> u32 \<Rightarrow> u32 \<Rightarrow> u32) \<Rightarrow> u64 list \<Rightarrow> u32" where
  "stack_hash jhash2 frames = jhash2 (u32_view frames) (of_nat (2 * length frames)) 0"

definition stack_id :: "(u32 list \<Rightarrow> u32 \<Rightarrow> u32 \<Rightarrow> u32) \<Rightarrow> bpf_stack_map \<Rightarrow> u64 list \<Rightarrow> u32" where
  "stack_id jhash2 smap frames = stack_hash jhash2 frames AND (n_buckets smap - 1)"

text \<open>The frame buffer of a stored entry: the frames, then zeros up to the
  \<^verbatim>\<open>value_size / 8\<close> slots of a value.\<close>

definition padded :: "bpf_stack_map \<Rightarrow> u64 list \<Rightarrow> u64 list" where
  "padded smap frames = frames @ replicate (unat (value_size smap) div 8 - length frames) 0"

definition new_entry :: "(u32 list \<Rightarrow> u32 \<Rightarrow> u32 \<Rightarrow> u32) \<Rightarrow> bpf_stack_map \<Rightarrow> u64 list \<Rightarrow> stack_map_bucket" where
  "new_entry jhash2 smap frames =
    \<lparr> hash = stack_hash jhash2 frames, nr = of_nat (length frames), ip = padded smap frames \<rparr>"

text \<open>The identity test of \<open>bpf_get_stackid\<close>: equal hash and, unless fast compare is
  requested, equal depth and equal frame bytes.\<close>

definition entry_matches ::
  "(u32 list \<Rightarrow> u32 \<Rightarrow> u32 \<Rightarrow> u32) \<Rightarrow> u64 \<Rightarrow> stack_map_bucket \<Rightarrow> u64 list \<Rightarrow> bool" where
  "entry_matches jhash2 flags b frames =
    (stack_map_bucket.hash b = stack_hash jhash2 frames \<and>
     (flags AND BPF_F_FAST_STACK_CMP \<noteq> 0 \<or>
      (unat (nr b) = length frames \<and> take (length frames) (ip b) = frames)))"

text \<open>
  The sanity check of \<^verbatim>\<open>stack_map_alloc\<close> on the attributes, the limit
  \<^verbatim>\<open>U32_MAX - PAGE_SIZE\<close> and the two costs compared with it: that of the bucket table, and
  that of the table with all its entries.
\<close>

definition attr_bad :: "bpf_attr \<Rightarrow> bool" where
  "attr_bad attr =
    (attr_max_entries attr = 0 \<or> attr_key_size attr \<noteq> 4 \<or>
     attr_value_size attr < 8 \<or> attr_value_size attr mod 8 \<noteq> 0 \<or>
     attr_value_size attr div 8 > PERF_MAX_STACK_DEPTH)"

definition cost_limit :: u64 where
  "cost_limit = ucast U32_MAX - PAGE_SIZE"

definition table_cost :: "u32 \<Rightarrow> bpf_attr \<Rightarrow> u64" where
  "table_cost sizeof_smap attr =
     roundup_pow_of_two (ucast (attr_max_entries attr)) * 8 + ucast sizeof_smap"

definition total_cost :: "u32 \<Rightarrow> bpf_attr \<Rightarrow> u64" where
  "total_cost sizeof_smap attr =
     table_cost sizeof_smap attr +
     roundup_pow_of_two (ucast (attr_max_entries attr)) * (ucast (attr_value_size attr) + 24)"

section \<open>kernel/trace/bpf_trace.c\<close>

subsection \<open>trace_call_bpf\<close>

text \<open>
  The state of the executing CPU that the dispatcher touches: the per-CPU counter
  \<^verbatim>\<open>bpf_prog_active\<close> (a C \<^verbatim>\<open>int\<close>) and the preemption count that
  \<^verbatim>\<open>preempt_disable\<close> and \<^verbatim>\<open>preempt_enable\<close> raise and lower.
\<close>

record cpu_state =
  bpf_prog_active :: "32 word"
  preempt_count :: "32 word"

text \<open>
  How the kprobe handler reads the returned value, from the comment above the function:
  0 - return from kprobe (event is filtered out); 1 - store kprobe event into ring buffer;
  other values are reserved and currently alias to 1.
\<close>

datatype kprobe_action = Filtered_out | Store_event

definition kprobe_interpretation :: "u32 \<Rightarrow> kprobe_action" where
  "kprobe_interpretation ret = (if ret = 0 then Filtered_out else Store_event)"

text \<open>
  \<open>in_nmi\<close> is the value of \<^verbatim>\<open>in_nmi()\<close>.  The macro
  \<^verbatim>\<open>BPF_PROG_RUN_ARRAY_CHECK\<close> (linux/bpf.h) is an input: \<open>run_array prog_array ctx\<close>
  gives the combined return value and the programs that were run, in order.  A program has no
  access to \<^verbatim>\<open>bpf_prog_active\<close>.  The result is the returned value, the CPU state at
  return and the programs run by the call.
\<close>

definition trace_call_bpf ::
  "('a \<Rightarrow> 'c \<Rightarrow> u32 \<times> 'p list) \<Rightarrow> bool \<Rightarrow> cpu_state \<Rightarrow> 'a \<Rightarrow> 'c \<Rightarrow> u32 \<times> cpu_state \<times> 'p list" where
  "trace_call_bpf run_array in_nmi s prog_array ctx =
    (if in_nmi then (1, s, [])
     else
       (let s1 = s \<lparr> preempt_count := preempt_count s + 1 \<rparr>;
            s2 = s1 \<lparr> bpf_prog_active := bpf_prog_active s1 + 1 \<rparr>;
            (ret, ran) = (if bpf_prog_active s2 \<noteq> 1 then (0, [])
                          else run_array prog_array ctx);
            s3 = s2 \<lparr> bpf_prog_active := bpf_prog_active s2 - 1 \<rparr>;
            s4 = s3 \<lparr> preempt_count := preempt_count s3 - 1 \<rparr>
        in (ret, s4, ran)))"

subsection \<open>bpf_perf_event_output\<close>

text \<open>
  Modelled from the spec: the declared kind of an event that accepts raw payloads from
  this subsystem is type \<^verbatim>\<open>PERF_TYPE_SOFTWARE\<close> with config
  \<^verbatim>\<open>PERF_COUNT_SW_BPF_OUTPUT\<close>; the two constants (uapi/linux/perf_event.h) are not part
  of the source files and carry the values of the header.
\<close>

definition PERF_TYPE_SOFTWARE :: u32 where
  "PERF_TYPE_SOFTWARE = 1"

definition PERF_COUNT_SW_BPF_OUTPUT :: u64 where
  "PERF_COUNT_SW_BPF_OUTPUT = 10"

text \<open>The fields of \<^verbatim>\<open>struct perf_event\<close> that the helper reads.\<close>

record perf_event =
  attr_type :: u32
  attr_config :: u64
  oncpu :: "32 word"

text \<open>The perf event array: \<^verbatim>\<open>array->map.max_entries\<close> and the slots
  \<^verbatim>\<open>array->ptrs\<close>; an occupied slot is a file whose private data is the event.\<close>

record bpf_array =
  arr_max_entries :: u32
  ptrs :: "perf_event option list"

text \<open>
  \<open>cpu\<close> is \<^verbatim>\<open>smp_processor_id()\<close>, \<open>data\<close> the \<open>size\<close> bytes of the raw record.  The
  result is the returned value and the calls of \<^verbatim>\<open>perf_event_output\<close> made: the event
  and the raw record handed to it.
\<close>

definition bpf_perf_event_output ::
  "bpf_array \<Rightarrow> 32 word \<Rightarrow> u64 \<Rightarrow> u8 list \<Rightarrow> (errno + u64) \<times> (perf_event \<times> u8 list) list" where
  "bpf_perf_event_output array cpu index data =
    (if index \<ge> ucast (arr_max_entries array) then (Inl E2BIG, [])
     else
       (case ptrs array ! unat index of
          None \<Rightarrow> (Inl ENOENT, [])
        | Some event \<Rightarrow>
            if attr_type event \<noteq> PERF_TYPE_SOFTWARE \<or>
               attr_config event \<noteq> PERF_COUNT_SW_BPF_OUTPUT
            then (Inl EINVAL, [])
            else if oncpu event \<noteq> cpu then (Inl EOPNOTSUPP, [])
            else (Inr 0, [(event, data)])))"

subsection \<open>bpf_trace_printk\<close>

text \<open>
  Modelled from the spec: the character classes of linux/ctype.h are not part of the
  source files.  On ASCII they are the printable characters (32 to 126), the whitespace
  characters (9 to 13 and 32) and the punctuation characters; above 127 they follow the
  kernel's table, which the \<open>isascii\<close> test of the caller makes irrelevant.
\<close>

definition isascii :: "u8 \<Rightarrow> bool" where
  "isascii c = (c \<le> 0x7f)"

definition isspace :: "u8 \<Rightarrow> bool" where
  "isspace c = ((9 \<le> c \<and> c \<le> 13) \<or> c = 32 \<or> c = 160)"

definition ispunct :: "u8 \<Rightarrow> bool" where
  "ispunct c = ((33 \<le> c \<and> c \<le> 47) \<or> (58 \<le> c \<and> c \<le> 64) \<or> (91 \<le> c \<and> c \<le> 96) \<or>
                (123 \<le> c \<and> c \<le> 126) \<or> (161 \<le> c \<and> c \<le> 191) \<or> c = 215 \<or> c = 247)"

definition isprint :: "u8 \<Rightarrow> bool" where
  "isprint c = ((32 \<le> c \<and> c \<le> 126) \<or> 160 \<le> c)"

text \<open>The characters the format check compares with: \<^verbatim>\<open>'%'\<close>, \<^verbatim>\<open>'l'\<close>, \<^verbatim>\<open>'p'\<close>,
  \<^verbatim>\<open>'s'\<close>, \<^verbatim>\<open>'d'\<close>, \<^verbatim>\<open>'u'\<close> and \<^verbatim>\<open>'x'\<close>.\<close>

definition c_percent :: u8 where "c_percent = 0x25"
definition c_l :: u8 where "c_l = 0x6c"
definition c_p :: u8 where "c_p = 0x70"
definition c_s :: u8 where "c_s = 0x73"
definition c_d :: u8 where "c_d = 0x64"
definition c_u :: u8 where "c_u = 0x75"
definition c_x :: u8 where "c_x = 0x78"

text \<open>
  Modelled from the spec: \<^verbatim>\<open>strncpy_from_unsafe\<close> (mm/maccess.c) is not part of the
  source files.  The spec describes a best-effort, fault-tolerant read of a null-terminated
  string, bounded by the size of the destination, with partial results: it never faults the
  caller and yields the number of bytes copied or a fault.  Memory is a partial map from
  addresses to bytes, \<open>None\<close> for an address that cannot be read.  \<open>read_string\<close> reads byte
  by byte up to and including the terminator, at most \<open>count\<close> bytes, and stops at the first
  address that cannot be read; it gives the bytes read and whether it stopped on a fault.
  The bytes read stay in the destination.  After a fault a terminator is written behind them
  and the result is \<^verbatim>\<open>-EFAULT\<close>; otherwise the terminator is written in the last place
  copied and the result is the number of bytes.
\<close>

fun read_string :: "(u64 \<Rightarrow> u8 option) \<Rightarrow> u64 \<Rightarrow> nat \<Rightarrow> u8 list \<times> bool" where
  "read_string mem a 0 = ([], False)"
| "read_string mem a (Suc n) =
    (case mem a of
       None \<Rightarrow> ([], True)
     | Some b \<Rightarrow> if b = 0 then ([b], False)
                else (case read_string mem (a + 1) n of (bs, fault) \<Rightarrow> (b # bs, fault)))"

definition strncpy_from_unsafe ::
  "(u64 \<Rightarrow> u8 option) \<Rightarrow> u8 list \<Rightarrow> u64 \<Rightarrow> nat \<Rightarrow> (errno + nat) \<times> u8 list" where
  "strncpy_from_unsafe mem dst unsafe_addr count =
    (if count = 0 then (Inr 0, dst)
     else case read_string mem unsafe_addr count of
            (bs, True) \<Rightarrow> (Inl EFAULT, bs @ [0] @ drop (length bs + 1) dst)
          | (bs, False) \<Rightarrow> (Inr (length bs), butlast bs @ [0] @ drop (length bs) dst))"

text \<open>The local variables of \<^verbatim>\<open>bpf_trace_printk\<close> that change in the loop, the
  argument registers included (\<^verbatim>\<open>mod\<close> is \<open>l_mod\<close>).\<close>

record printk_locals =
  l_i :: nat
  l_fmt_cnt :: nat
  l_mod :: "nat list"
  l_str_seen :: bool
  l_unsafe_addr :: u64
  l_r3 :: u64
  l_r4 :: u64
  l_r5 :: u64
  l_buf :: "u8 list"

text \<open>The stack frame of the call: the address of \<^verbatim>\<open>buf\<close>, and what
  \<^verbatim>\<open>buf\<close> and \<^verbatim>\<open>unsafe_addr\<close> hold before they are assigned.\<close>

record stack_frame =
  buf_addr :: u64
  buf_init :: "u8 list"
  unsafe_addr_init :: u64

text \<open>The end of an integer conversion: an optional \<^verbatim>\<open>'l'\<close>, then one of
  \<^verbatim>\<open>'d'\<close>, \<^verbatim>\<open>'u'\<close>, \<^verbatim>\<open>'x'\<close>, and \<^verbatim>\<open>fmt_cnt++\<close>.\<close>

definition printk_int :: "u8 list \<Rightarrow> printk_locals \<Rightarrow> errno + printk_locals" where
  "printk_int fmt st =
    (let st = (if fmt ! l_i st = c_l
               then st \<lparr> l_mod := (l_mod st)[l_fmt_cnt st := l_mod st ! l_fmt_cnt st + 1],
                         l_i := l_i st + 1 \<rparr>
               else st)
     in if fmt ! l_i st \<noteq> c_d \<and> fmt ! l_i st \<noteq> c_u \<and> fmt ! l_i st \<noteq> c_x then Inl EINVAL
        else Inr (st \<lparr> l_fmt_cnt := l_fmt_cnt st + 1 \<rparr>))"

text \<open>One round of the loop over the format, from the test of \<^verbatim>\<open>fmt[i]\<close> to the
  \<^verbatim>\<open>continue\<close> or the end of the body; the \<^verbatim>\<open>i++\<close> of the \<^verbatim>\<open>for\<close> is done by
  \<open>printk_loop\<close>.  A \<^verbatim>\<open>return -EINVAL\<close> is \<open>Inl EINVAL\<close>.  The return value of
  \<^verbatim>\<open>strncpy_from_unsafe\<close> is dropped, as in the source.\<close>

definition printk_body ::
  "(u64 \<Rightarrow> u8 option) \<Rightarrow> stack_frame \<Rightarrow> u8 list \<Rightarrow> printk_locals \<Rightarrow> errno + printk_locals" where
  "printk_body mem frame fmt st =
    (if (\<not> isprint (fmt ! l_i st) \<and> \<not> isspace (fmt ! l_i st)) \<or> \<not> isascii (fmt ! l_i st)
     then Inl EINVAL
     else if fmt ! l_i st \<noteq> c_percent then Inr st
     else if l_fmt_cnt st \<ge> 3 then Inl EINVAL
     else
       (let st = st \<lparr> l_i := l_i st + 1 \<rparr> in
        if fmt ! l_i st = c_l
        then printk_int fmt
               (st \<lparr> l_mod := (l_mod st)[l_fmt_cnt st := l_mod st ! l_fmt_cnt st + 1],
                     l_i := l_i st + 1 \<rparr>)
        else if fmt ! l_i st = c_p \<or> fmt ! l_i st = c_s
        then
          (let st = st \<lparr> l_mod := (l_mod st)[l_fmt_cnt st := l_mod st ! l_fmt_cnt st + 1] \<rparr> in
           if fmt ! (l_i st + 1) \<noteq> 0 \<and> \<not> isspace (fmt ! (l_i st + 1)) \<and>
              \<not> ispunct (fmt ! (l_i st + 1))
           then Inl EINVAL
           else
             (let st = st \<lparr> l_fmt_cnt := l_fmt_cnt st + 1 \<rparr> in
              if fmt ! l_i st = c_s
              then
                (if l_str_seen st then Inl EINVAL
                 else
                   (let st = st \<lparr> l_str_seen := True \<rparr>;
                        st = (if l_fmt_cnt st = 1
                              then st \<lparr> l_unsafe_addr := l_r3 st, l_r3 := buf_addr frame \<rparr>
                              else if l_fmt_cnt st = 2
                              then st \<lparr> l_unsafe_addr := l_r4 st, l_r4 := buf_addr frame \<rparr>
                              else if l_fmt_cnt st = 3
                              then st \<lparr> l_unsafe_addr := l_r5 st, l_r5 := buf_addr frame \<rparr>
                              else st);
                        st = st \<lparr> l_buf := (l_buf st)[0 := 0] \<rparr>
                    in Inr (st \<lparr> l_buf :=
                                snd (strncpy_from_unsafe mem (l_buf st) (l_unsafe_addr st) 64) \<rparr>)))
              else Inr st))
        else printk_int fmt st))"

text \<open>The loop \<^verbatim>\<open>for (i = 0; i < fmt_size; i++)\<close>.  Each round moves \<open>l_i\<close> forward,
  which is why it ends.\<close>

function printk_loop ::
  "(u64 \<Rightarrow> u8 option) \<Rightarrow> stack_frame \<Rightarrow> u8 list \<Rightarrow> nat \<Rightarrow> printk_locals \<Rightarrow> errno + printk_locals" where
  "printk_loop mem frame fmt fmt_size st =
    (if l_i st < fmt_size
     then (case printk_body mem frame fmt st of
             Inl e \<Rightarrow> Inl e
           | Inr st' \<Rightarrow> printk_loop mem frame fmt fmt_size (st' \<lparr> l_i := l_i st' + 1 \<rparr>))
     else Inr st)"
  by pat_completeness auto
termination
proof (relation "measure (\<lambda>(mem, frame, fmt, fmt_size, st). fmt_size - l_i st)")
  show "wf (measure (\<lambda>(mem, frame, fmt, fmt_size, st). fmt_size - l_i st))" by simp
next
  fix mem frame fmt fmt_size st st'
  assume lt: "l_i st < fmt_size" and body: "printk_body mem frame fmt st = Inr st'"
  from body have "l_i st \<le> l_i st'"
    by (auto simp add: printk_body_def printk_int_def Let_def split: if_splits)
  with lt show "((mem, frame, fmt, fmt_size, st' \<lparr> l_i := l_i st' + 1 \<rparr>),
        (mem, frame, fmt, fmt_size, st))
      \<in> measure (\<lambda>(mem, frame, fmt, fmt_size, st). fmt_size - l_i st)"
    by simp
qed

declare printk_loop.simps [simp del]

text \<open>What \<^verbatim>\<open>__trace_printk\<close> is called with: the format, the three arguments, and
  the contents of \<^verbatim>\<open>buf\<close>, which a string argument points to.\<close>

record printk_call =
  pk_fmt :: "u8 list"
  pk_args :: "u64 list"
  pk_buf :: "u8 list"

text \<open>The cast of an argument by its modifier count:
  \<^verbatim>\<open>mod == 2 ? r : mod == 1 ? (long) r : (u32) r\<close>.\<close>

definition printk_arg :: "nat \<Rightarrow> u64 \<Rightarrow> u64" where
  "printk_arg m r = (if m = 2 then r else if m = 1 then r else ucast (ucast r :: u32))"

text \<open>
  \<open>fmt\<close> holds the \<^verbatim>\<open>fmt_size\<close> bytes of the format on the program's stack (the
  verifier guarantees that they are initialised and that there is at least one).  The
  result is \<open>Inl EINVAL\<close> or the call of \<^verbatim>\<open>__trace_printk\<close> whose value the helper
  returns.
\<close>

definition bpf_trace_printk ::
  "(u64 \<Rightarrow> u8 option) \<Rightarrow> stack_frame \<Rightarrow> u8 list \<Rightarrow> u64 \<Rightarrow> u64 \<Rightarrow> u64 \<Rightarrow> errno + printk_call" where
  "bpf_trace_printk mem frame fmt r3 r4 r5 =
    (let fmt_size = length fmt - 1 in
     if fmt ! fmt_size \<noteq> 0 then Inl EINVAL
     else
       (case printk_loop mem frame fmt fmt_size
               \<lparr> l_i = 0, l_fmt_cnt = 0, l_mod = [0, 0, 0], l_str_seen = False,
                 l_unsafe_addr = unsafe_addr_init frame,
                 l_r3 = r3, l_r4 = r4, l_r5 = r5, l_buf = buf_init frame \<rparr> of
          Inl e \<Rightarrow> Inl e
        | Inr st \<Rightarrow>
            Inr \<lparr> pk_fmt = fmt,
                  pk_args = [printk_arg (l_mod st ! 0) (l_r3 st),
                             printk_arg (l_mod st ! 1) (l_r4 st),
                             printk_arg (l_mod st ! 2) (l_r5 st)],
                  pk_buf = l_buf st \<rparr>))"

subsection \<open>Vocabulary for the format check\<close>

text \<open>The number of \<^verbatim>\<open>'%'\<close> characters before position \<open>i\<close> of the format: the index
  of the argument that a specifier at \<open>i\<close> consumes.\<close>

definition count_pct :: "u8 list \<Rightarrow> nat \<Rightarrow> nat" where
  "count_pct fmt i = length (filter (\<lambda>j. fmt ! j = c_percent) [0..<i])"

text \<open>The C string held by a buffer: the bytes before the first terminator.\<close>

definition c_string :: "u8 list \<Rightarrow> u8 list" where
  "c_string bs = takeWhile (\<lambda>b. b \<noteq> 0) bs"

text \<open>
  The invariant of the loop at position \<open>l_i\<close>: \<open>l_fmt_cnt\<close> counts the specifiers before
  it, the modifier counts of later arguments are still 0, and either no \<^verbatim>\<open>%s\<close> has been
  met and registers and buffer are untouched, or exactly one has been met, its register holds
  the address of the buffer, its modifier count is 1 and the buffer holds what the string
  read left.
\<close>

definition printk_inv ::
  "(u64 \<Rightarrow> u8 option) \<Rightarrow> stack_frame \<Rightarrow> u8 list \<Rightarrow> u64 \<Rightarrow> u64 \<Rightarrow> u64 \<Rightarrow> printk_locals \<Rightarrow> bool" where
  "printk_inv mem frame fmt r3 r4 r5 st =
    (length (l_mod st) = 3 \<and>
     l_fmt_cnt st = count_pct fmt (l_i st) \<and>
     (\<forall>m. l_fmt_cnt st \<le> m \<and> m < 3 \<longrightarrow> l_mod st ! m = 0) \<and>
     (if l_str_seen st
      then (\<exists>j. j < l_i st \<and> fmt ! j = c_percent \<and> fmt ! (j + 1) = c_s \<and> count_pct fmt j < 3 \<and>
                (\<forall>j'. j' < l_i st \<and> fmt ! j' = c_percent \<and> fmt ! (j' + 1) = c_s \<longrightarrow> j' = j) \<and>
                [l_r3 st, l_r4 st, l_r5 st] ! count_pct fmt j = buf_addr frame \<and>
                l_mod st ! count_pct fmt j = 1 \<and>
                l_buf st = snd (strncpy_from_unsafe mem ((buf_init frame)[0 := 0])
                                  ([r3, r4, r5] ! count_pct fmt j) 64))
      else ((\<forall>j. j < l_i st \<and> fmt ! j = c_percent \<longrightarrow> fmt ! (j + 1) \<noteq> c_s) \<and>
            l_r3 st = r3 \<and> l_r4 st = r4 \<and> l_r5 st = r5 \<and> l_buf st = buf_init frame)))"

text \<open>The two effects a specifier can have on the locals: a conversion other than
  \<^verbatim>\<open>%s\<close> of one to three further characters, and \<^verbatim>\<open>%s\<close>.\<close>

definition plain_step :: "u8 list \<Rightarrow> printk_locals \<Rightarrow> printk_locals \<Rightarrow> bool" where
  "plain_step fmt st st' =
    (\<exists>n. 1 \<le> n \<and> n \<le> 3 \<and> l_i st' = l_i st + n \<and>
       (\<forall>p. 1 \<le> p \<and> p \<le> n \<longrightarrow> fmt ! (l_i st + p) \<noteq> c_percent \<and> fmt ! (l_i st + p) \<noteq> c_s) \<and>
       l_fmt_cnt st' = l_fmt_cnt st + 1 \<and>
       length (l_mod st') = length (l_mod st) \<and>
       (\<forall>q. q \<noteq> l_fmt_cnt st \<longrightarrow> l_mod st' ! q = l_mod st ! q) \<and>
       l_str_seen st' = l_str_seen st \<and> l_r3 st' = l_r3 st \<and> l_r4 st' = l_r4 st \<and>
       l_r5 st' = l_r5 st \<and> l_buf st' = l_buf st)"

definition string_step ::
  "(u64 \<Rightarrow> u8 option) \<Rightarrow> stack_frame \<Rightarrow> u8 list \<Rightarrow> printk_locals \<Rightarrow> printk_locals \<Rightarrow> bool" where
  "string_step mem frame fmt st st' =
    (fmt ! (l_i st + 1) = c_s \<and> \<not> l_str_seen st \<and> l_i st' = l_i st + 1 \<and>
     l_fmt_cnt st' = l_fmt_cnt st + 1 \<and>
     l_mod st' = (l_mod st)[l_fmt_cnt st := l_mod st ! l_fmt_cnt st + 1] \<and>
     l_str_seen st' \<and>
     [l_r3 st', l_r4 st', l_r5 st'] = [l_r3 st, l_r4 st, l_r5 st][l_fmt_cnt st := buf_addr frame] \<and>
     l_buf st' = snd (strncpy_from_unsafe mem ((l_buf st)[0 := 0])
                        ([l_r3 st, l_r4 st, l_r5 st] ! l_fmt_cnt st) 64))"

text \<open>The locals that decide the path through the loop, and the loop body on them
  alone.\<close>

definition control :: "printk_locals \<Rightarrow> nat \<times> nat \<times> bool" where
  "control st = (l_i st, l_fmt_cnt st, l_str_seen st)"

definition int_control :: "u8 list \<Rightarrow> nat \<times> nat \<times> bool \<Rightarrow> errno + nat \<times> nat \<times> bool" where
  "int_control fmt c =
    (case c of (i, n, s) \<Rightarrow>
       (let i' = (if fmt ! i = c_l then i + 1 else i)
        in if fmt ! i' \<noteq> c_d \<and> fmt ! i' \<noteq> c_u \<and> fmt ! i' \<noteq> c_x then Inl EINVAL
           else Inr (i', n + 1, s)))"

definition body_control :: "u8 list \<Rightarrow> nat \<times> nat \<times> bool \<Rightarrow> errno + nat \<times> nat \<times> bool" where
  "body_control fmt c =
    (case c of (i, n, s) \<Rightarrow>
       if (\<not> isprint (fmt ! i) \<and> \<not> isspace (fmt ! i)) \<or> \<not> isascii (fmt ! i) then Inl EINVAL
       else if fmt ! i \<noteq> c_percent then Inr (i, n, s)
       else if n \<ge> 3 then Inl EINVAL
       else if fmt ! (i + 1) = c_l then int_control fmt (i + 2, n, s)
       else if fmt ! (i + 1) = c_p \<or> fmt ! (i + 1) = c_s
       then (if fmt ! (i + 2) \<noteq> 0 \<and> \<not> isspace (fmt ! (i + 2)) \<and> \<not> ispunct (fmt ! (i + 2))
             then Inl EINVAL
             else if fmt ! (i + 1) = c_s
             then (if s then Inl EINVAL else Inr (i + 1, n + 1, True))
             else Inr (i + 1, n + 1, s))
       else int_control fmt (i + 1, n, s))"

text \<open>
  The formats that the comment above \<open>bpf_trace_printk\<close> allows
  (\<^verbatim>\<open>%d %u %x %ld %lu %lx %lld %llu %llx %p %s\<close>) and that the format validator of the
  specification calls valid, written as a grammar over the bytes and not as the loop of the
  helper.  The last byte is the terminator and no byte before it is; every byte outside a
  specifier is printable or whitespace ASCII; a specifier is \<^verbatim>\<open>'%'\<close> followed by one of
  \<^verbatim>\<open>d\<close>, \<^verbatim>\<open>u\<close>, \<^verbatim>\<open>x\<close>, or by one or two \<^verbatim>\<open>l\<close> and then one of these, or by
  \<^verbatim>\<open>p\<close>, or by \<^verbatim>\<open>s\<close>; after \<^verbatim>\<open>%p\<close> and \<^verbatim>\<open>%s\<close> comes the terminator, whitespace
  or punctuation; there are at most three specifiers, and at most one of them is
  \<^verbatim>\<open>%s\<close>.  \<open>valid_format_from xs n s\<close> reads the bytes \<open>xs\<close> that follow \<open>n\<close> specifiers,
  \<open>s\<close> telling whether a \<^verbatim>\<open>%s\<close> was among them.
\<close>

definition is_int_conv :: "u8 \<Rightarrow> bool" where
  "is_int_conv c = (c = c_d \<or> c = c_u \<or> c = c_x)"

definition follows_ok :: "u8 list \<Rightarrow> bool" where
  "follows_ok r = (case r of [] \<Rightarrow> False | c # _ \<Rightarrow> c = 0 \<or> isspace c \<or> ispunct c)"

fun valid_format_from :: "u8 list \<Rightarrow> nat \<Rightarrow> bool \<Rightarrow> bool" where
  "valid_format_from [] n s = False"
| "valid_format_from [c] n s = (c = 0)"
| "valid_format_from (c # c1 # r) n s =
    (if c = c_percent
     then n < 3 \<and>
       (if is_int_conv c1 then valid_format_from r (n + 1) s
        else if c1 = c_l
        then (case r of
                [] \<Rightarrow> False
              | c2 # r2 \<Rightarrow>
                  if is_int_conv c2 then valid_format_from r2 (n + 1) s
                  else if c2 = c_l
                  then (case r2 of [] \<Rightarrow> False
                        | c3 # r3 \<Rightarrow> is_int_conv c3 \<and> valid_format_from r3 (n + 1) s)
                  else False)
        else if c1 = c_p then follows_ok r \<and> valid_format_from r (n + 1) s
        else if c1 = c_s then \<not> s \<and> follows_ok r \<and> valid_format_from r (n + 1) True
        else False)
     else (isprint c \<or> isspace c) \<and> isascii c \<and> valid_format_from (c1 # r) n s)"

definition valid_format :: "u8 list \<Rightarrow> bool" where
  "valid_format fmt = valid_format_from fmt 0 False"

section \<open>Example inputs\<close>

text \<open>A map of four empty buckets whose values hold two frames.\<close>

definition smap_empty4 :: bpf_stack_map where
  "smap_empty4 = \<lparr> map_type = 7, key_size = 4, value_size = 16, max_entries = 4, pages = 1,
                   n_buckets = 4, buckets = [None, None, None, None] \<rparr>"

text \<open>A stand-in for \<^verbatim>\<open>jhash2\<close> in examples: the sum of the words, the length and the
  initial value.\<close>

definition hash_ex :: "u32 list \<Rightarrow> u32 \<Rightarrow> u32 \<Rightarrow> u32" where
  "hash_ex k len initval = sum_list k + len + initval"

text \<open>A capture that finds the frames \<open>fs\<close>: they fill the buffer from slot \<open>init_nr\<close> to
  its end.\<close>

definition callchain_ex :: "u64 list \<Rightarrow> u32 \<Rightarrow> bool \<Rightarrow> bool \<Rightarrow> perf_callchain_entry option" where
  "callchain_ex fs init_nr kern usr =
    (if unat init_nr + length fs = 127
     then Some \<lparr> pce_nr = 127, pce_ip = replicate (unat init_nr) 0 @ fs \<rparr>
     else None)"

text \<open>The entry that \<open>bpf_get_stackid\<close> stores in \<open>smap_empty4\<close> for the frames
  \<open>[0x1004, 0x2008]\<close> under \<open>hash_ex\<close>, and the map holding it in bucket 0.\<close>

definition bucket_ex :: stack_map_bucket where
  "bucket_ex = \<lparr> hash = 0x3010, nr = 2, ip = [0x1004, 0x2008] \<rparr>"

definition smap_one :: bpf_stack_map where
  "smap_one = smap_empty4 \<lparr> buckets := [Some bucket_ex, None, None, None] \<rparr>"

text \<open>A creation request by a privileged caller whose allocations succeed, and requests
  with a given key size, value size and capacity.\<close>

definition env_ok :: alloc_env where
  "env_ok = \<lparr> capable_sys_admin = True, kzalloc_ok = True, vzalloc_ok = True,
              get_callchain_buffers = None \<rparr>"

definition attr_ex :: "u32 \<Rightarrow> u32 \<Rightarrow> u32 \<Rightarrow> bpf_attr" where
  "attr_ex ks vs me = \<lparr> attr_map_type = 7, attr_key_size = ks, attr_value_size = vs,
                        attr_max_entries = me \<rparr>"

text \<open>A CPU on which a program is already running, and a program array whose run returns
  1 after running the programs \<open>''p1''\<close> and \<open>''p2''\<close>.\<close>

definition cpu_busy :: cpu_state where
  "cpu_busy = \<lparr> bpf_prog_active = 1, preempt_count = 0 \<rparr>"

definition cpu_idle :: cpu_state where
  "cpu_idle = \<lparr> bpf_prog_active = 0, preempt_count = 0 \<rparr>"

definition run_ex :: "unit \<Rightarrow> unit \<Rightarrow> u32 \<times> string list" where
  "run_ex prog_array ctx = (1, [''p1'', ''p2''])"

text \<open>An event array with empty slots 0 and 1, a raw-output event of CPU 0 in slot 2 and a
  hardware event (type 0) of CPU 0 in slot 3.\<close>

definition array_ex :: bpf_array where
  "array_ex = \<lparr> arr_max_entries = 4,
     ptrs = [None, None,
             Some \<lparr> attr_type = 1, attr_config = 10, oncpu = 0 \<rparr>,
             Some \<lparr> attr_type = 0, attr_config = 10, oncpu = 0 \<rparr>] \<rparr>"

text \<open>A memory holding the string \<open>hi\<close> at address \<open>0x1000\<close> and nothing else, a stack
  frame with a buffer of 64 uninitialised bytes, and the format \<^verbatim>\<open>"%d %s"\<close>.\<close>

definition mem_ex :: "u64 \<Rightarrow> u8 option" where
  "mem_ex a = (if a = 0x1000 then Some 0x68 else if a = 0x1001 then Some 0x69
               else if a = 0x1002 then Some 0 else None)"

definition frame_ex :: stack_frame where
  "frame_ex = \<lparr> buf_addr = 0xb0f, buf_init = replicate 64 0xaa, unsafe_addr_init = 0 \<rparr>"

definition fmt_ex :: "u8 list" where
  "fmt_ex = [0x25, 0x64, 0x20, 0x25, 0x73, 0]"

text \<open>A memory in which the two bytes \<^verbatim>\<open>"hi"\<close> at address \<open>0x1000\<close> are followed by an
  address that cannot be read, and the formats \<^verbatim>\<open>"%s"\<close>, \<^verbatim>\<open>"%p %s"\<close> and
  \<^verbatim>\<open>"%s %d"\<close>.\<close>

definition mem_fault :: "u64 \<Rightarrow> u8 option" where
  "mem_fault a = (if a = 0x1000 then Some 0x68 else if a = 0x1001 then Some 0x69 else None)"

definition fmt_s :: "u8 list" where
  "fmt_s = [0x25, 0x73, 0]"

definition fmt_p_s :: "u8 list" where
  "fmt_p_s = [0x25, 0x70, 0x20, 0x25, 0x73, 0]"

definition fmt_s_d :: "u8 list" where
  "fmt_s_d = [0x25, 0x73, 0x20, 0x25, 0x64, 0]"

section \<open>Auxiliary facts about the stack map\<close>

lemma id_in_range:
  assumes "n \<noteq> (0::u32)" "length bs = unat n"
  shows "unat (h AND (n - 1)) < length bs"
proof -
  have "h AND (n - 1) \<le> n - 1" by (rule word_and_le1)
  moreover have "n - 1 < n" using assms(1) by (simp add: word_less_nat_alt unat_minus_one unat_gt_0)
  ultimately show ?thesis using assms(2) by (simp add: word_less_nat_alt word_le_nat_alt)
qed

lemma len_div8: "unat ((x::u32) * 8) div 8 \<le> unat x"
proof -
  have "unat (x * 8) = (unat x * 8) mod 2 ^ 32" by (simp add: unat_word_ariths)
  also have "\<dots> \<le> unat x * 8" by simp
  finally show ?thesis by simp
qed

lemma frames_avail:
  assumes ok: "callchain_ok init_nr t"
    and ns: "\<not> (ucast (pce_nr t) :: u32) - init_nr \<le> skip"
  shows "unat ((ucast (pce_nr t) :: u32) - init_nr - skip) \<le> length (drop (unat skip + unat init_nr) (pce_ip t))"
    and "unat ((ucast (pce_nr t) :: u32) - init_nr - skip) + unat init_nr \<le> 127"
    and "0 < unat ((ucast (pce_nr t) :: u32) - init_nr - skip)"
proof -
  let ?nr = "ucast (pce_nr t) :: u32"
  from ok have le127: "unat (pce_nr t) \<le> 127" and len: "length (pce_ip t) = 127"
    and ini: "unat init_nr \<le> unat (pce_nr t)"
    by (simp_all add: callchain_ok_def PERF_MAX_STACK_DEPTH_def)
  have nr: "unat ?nr = unat (pce_nr t)"
    using le127 by (simp add: unsigned_ucast_eq take_bit_nat_eq_self)
  have i_le: "init_nr \<le> ?nr" using ini nr by (simp add: word_le_nat_alt)
  have s1: "unat (?nr - init_nr) = unat ?nr - unat init_nr"
    using i_le by (rule unat_sub)
  from ns have s_le: "skip \<le> ?nr - init_nr" and s_lt: "unat skip < unat (?nr - init_nr)"
    by (simp_all add: word_le_nat_alt)
  have s2: "unat (?nr - init_nr - skip) = unat (?nr - init_nr) - unat skip"
    using s_le by (rule unat_sub)
  show "unat (?nr - init_nr - skip) \<le> length (drop (unat skip + unat init_nr) (pce_ip t))"
    using s1 s2 nr le127 len by simp
  show "unat (?nr - init_nr - skip) + unat init_nr \<le> 127"
    using s1 s2 nr le127 ini by simp
  show "0 < unat (?nr - init_nr - skip)"
    using s2 s_lt by simp
qed



lemma u32_view_take: "take (2 * n) (u32_view xs) = u32_view (take n xs)"
proof (induction xs arbitrary: n)
  case Nil
  then show ?case by simp
next
  case (Cons x xs)
  show ?case
  proof (cases n)
    case 0
    then show ?thesis by simp
  next
    case (Suc m)
    then show ?thesis using Cons.IH [of m] by simp
  qed
qed

lemma small_len:
  assumes "unat (x :: u32) \<le> 127"
  shows "unat (x * 8) = 8 * unat x" and "unat (x * 8 div 4) = 2 * unat x"
    and "x * 8 div 4 = of_nat (2 * unat x)"
proof -
  show a: "unat (x * 8) = 8 * unat x"
    using assms by (simp add: unat_word_ariths)
  show b: "unat (x * 8 div 4) = 2 * unat x"
    using a by (simp add: unat_div)
  show "x * 8 div 4 = of_nat (2 * unat x)"
    using b by (metis of_nat_unat ucast_id)
qed


lemma bpf_get_stackid_captured:
  assumes wf: "smap_wf smap" and ok: "callchains_ok gpc"
    and fl: "flags_valid flags"
    and cap: "captured_frames gpc smap flags = Some frames"
  shows "bpf_get_stackid jhash2 gpc kmalloc_ok smap flags =
    (let sid = stack_id jhash2 smap frames;
         bucket = buckets smap ! unat sid
     in if (case bucket of None \<Rightarrow> False | Some b \<Rightarrow> entry_matches jhash2 flags b frames)
        then (Inr sid, smap, [])
        else if bucket \<noteq> None \<and> flags AND BPF_F_REUSE_STACKID = 0
        then (Inl EEXIST, smap, [])
        else if \<not> kmalloc_ok then (Inl ENOMEM, smap, [])
        else (Inr sid,
              smap \<lparr> buckets := (buckets smap)[unat sid := Some (new_entry jhash2 smap frames)] \<rparr>,
              Kmalloc (new_entry jhash2 smap frames) #
              (case bucket of None \<Rightarrow> [] | Some b \<Rightarrow> [Kfree_rcu b])))"
    and "length frames \<le> unat (value_size smap) div 8"
    and "frames \<noteq> []"
proof -
  define init_nr where "init_nr = PERF_MAX_STACK_DEPTH - value_size smap div 8"
  define skip where "skip = (ucast (flags AND BPF_F_SKIP_FIELD_MASK) :: u32)"
  define user where "user = (flags AND BPF_F_USER_STACK \<noteq> 0)"
  from cap obtain t where t: "gpc init_nr (\<not> user) user = Some t"
    and ns: "\<not> (ucast (pce_nr t) :: u32) - init_nr \<le> skip"
    unfolding captured_frames_def Let_def init_nr_def skip_def user_def
    by (auto split: option.splits if_splits)
  define trace_nr where "trace_nr = (ucast (pce_nr t) :: u32) - init_nr - skip"
  define ips where "ips = drop (unat skip + unat init_nr) (pce_ip t)"
  have fr: "frames = take (unat trace_nr) ips"
    using cap t ns
    unfolding captured_frames_def Let_def init_nr_def skip_def user_def trace_nr_def ips_def
    by simp
  have tok: "callchain_ok init_nr t"
    using ok t unfolding callchains_ok_def by blast
  have avail: "unat trace_nr \<le> length ips"
    using frames_avail(1) [OF tok ns] unfolding trace_nr_def ips_def .
  have lenf: "length frames = unat trace_nr"
    using avail fr by simp
  from wf have md: "unat (value_size smap div 8) \<le> 127" and nb: "n_buckets smap \<noteq> 0"
    and lb: "length (buckets smap) = unat (n_buckets smap)"
    by (simp_all add: smap_wf_def PERF_MAX_STACK_DEPTH_def word_le_nat_alt)
  have ini: "unat init_nr = 127 - unat (value_size smap div 8)"
    unfolding init_nr_def PERF_MAX_STACK_DEPTH_def
    using md by (simp add: unat_sub word_le_nat_alt)
  have vs8: "unat (value_size smap div 8) = unat (value_size smap) div 8"
    by (simp add: unat_div)
  have tn_le: "unat trace_nr \<le> unat (value_size smap) div 8" and tn127: "unat trace_nr \<le> 127"
    using frames_avail(2) [OF tok ns] ini md vs8 unfolding trace_nr_def by simp_all
  have tn_pos: "0 < unat trace_nr"
    using frames_avail(3) [OF tok ns] unfolding trace_nr_def .
  show "length frames \<le> unat (value_size smap) div 8"
    using lenf tn_le by simp
  show "frames \<noteq> []"
    using lenf tn_pos by auto
  have e1: "unat (trace_nr * 8) div 8 = unat trace_nr"
    using small_len(1) [OF tn127] by simp
  have e3: "trace_nr * 8 div 4 = of_nat (2 * length frames)"
    using small_len(3) [OF tn127] lenf by simp
  have e2: "take (unat (of_nat (2 * length frames) :: u32)) (u32_view ips) = u32_view frames"
    using small_len(2) [OF tn127] u32_view_take [of "unat trace_nr" ips] fr
    unfolding e3 by simp
  have le8: "trace_nr * 8 \<le> value_size smap"
    using small_len(1) [OF tn127] tn_le by (simp add: word_le_nat_alt)
  have e4: "unat (value_size smap - trace_nr * 8) div 8 = unat (value_size smap) div 8 - length frames"
    using unat_sub [OF le8] small_len(1) [OF tn127] lenf by simp
  have e5: "trace_nr = of_nat (length frames)"
    using lenf by simp
  have e8: "unat (of_nat (length frames) :: u32) = length frames"
    using lenf by simp
  have e6: "\<And>b. (nr b = trace_nr) = (unat (nr b) = length frames)"
    using lenf by (simp add: word_unat_eq_iff)
  have e7: "take (unat trace_nr) ips = frames" using fr by simp
  have h: "jhash2 (u32_view frames) (word_of_nat (2 * length frames)) 0 = stack_hash jhash2 frames"
    by (simp add: stack_hash_def)
  have fl': "flags AND NOT (BPF_F_SKIP_FIELD_MASK OR BPF_F_USER_STACK OR
                    BPF_F_FAST_STACK_CMP OR BPF_F_REUSE_STACKID) = 0"
    using fl by (simp add: flags_valid_def)
  have "bpf_get_stackid jhash2 gpc kmalloc_ok smap flags =
    (let hash = stack_hash jhash2 frames;
         sid = hash AND (n_buckets smap - 1);
         bucket = buckets smap ! unat sid
     in if (case bucket of None \<Rightarrow> False
            | Some b \<Rightarrow> stack_map_bucket.hash b = hash \<and>
                (flags AND BPF_F_FAST_STACK_CMP \<noteq> 0 \<or>
                 (unat (nr b) = length frames \<and> take (length frames) (ip b) = frames)))
        then (Inr sid, smap, [])
        else if bucket \<noteq> None \<and> flags AND BPF_F_REUSE_STACKID = 0
        then (Inl EEXIST, smap, [])
        else if \<not> kmalloc_ok then (Inl ENOMEM, smap, [])
        else (Inr sid,
              smap \<lparr> buckets := (buckets smap)[unat sid := Some \<lparr> hash = hash, nr = of_nat (length frames),
                   ip = frames @ replicate (unat (value_size smap) div 8 - length frames) 0 \<rparr>] \<rparr>,
              Kmalloc \<lparr> hash = hash, nr = of_nat (length frames),
                   ip = frames @ replicate (unat (value_size smap) div 8 - length frames) 0 \<rparr> #
              (case bucket of None \<Rightarrow> [] | Some b \<Rightarrow> [Kfree_rcu b])))"
    unfolding bpf_get_stackid_def Let_def init_nr_def [symmetric] skip_def [symmetric]
      user_def [symmetric]
    apply (simp only: fl' t option.case ns if_False if_True simp_thms trace_nr_def [symmetric] ips_def [symmetric])
    apply (simp only: e1 e2 e3 e4 e6 e7 h)
    apply (simp only: e5)
    apply (simp only: e8)
    done
  then show "bpf_get_stackid jhash2 gpc kmalloc_ok smap flags =
    (let sid = stack_id jhash2 smap frames;
         bucket = buckets smap ! unat sid
     in if (case bucket of None \<Rightarrow> False | Some b \<Rightarrow> entry_matches jhash2 flags b frames)
        then (Inr sid, smap, [])
        else if bucket \<noteq> None \<and> flags AND BPF_F_REUSE_STACKID = 0
        then (Inl EEXIST, smap, [])
        else if \<not> kmalloc_ok then (Inl ENOMEM, smap, [])
        else (Inr sid,
              smap \<lparr> buckets := (buckets smap)[unat sid := Some (new_entry jhash2 smap frames)] \<rparr>,
              Kmalloc (new_entry jhash2 smap frames) #
              (case bucket of None \<Rightarrow> [] | Some b \<Rightarrow> [Kfree_rcu b])))"
    unfolding Let_def stack_id_def entry_matches_def new_entry_def padded_def .
qed




lemma callchains_ok_ex: "callchains_ok (callchain_ex fs)"
  by (auto simp add: callchains_ok_def callchain_ok_def callchain_ex_def PERF_MAX_STACK_DEPTH_def
      split: if_splits)


subsection \<open>Rounding up to a power of two\<close>

lemma fls_nat_bounds: "n < 2 ^ fls_nat n \<and> (0 < n \<longrightarrow> 2 ^ fls_nat n \<le> 2 * n)"
proof (induction n rule: fls_nat.induct)
  case (1 n)
  show ?case
  proof (cases "n = 0")
    case True
    then show ?thesis by (simp add: fls_nat.simps [of 0])
  next
    case False
    with 1 have ih: "n div 2 < 2 ^ fls_nat (n div 2)"
      "0 < n div 2 \<longrightarrow> 2 ^ fls_nat (n div 2) \<le> 2 * (n div 2)" by simp_all
    have f: "fls_nat n = Suc (fls_nat (n div 2))" using False by (simp add: fls_nat.simps [of n])
    show ?thesis
    proof (cases "n div 2 = 0")
      case True
      then have "n = 1" using False by presburger
      then show ?thesis by (simp add: fls_nat.simps [of "Suc 0"] fls_nat.simps [of 0])
    next
      case nz: False
      have a: "n < 2 * 2 ^ fls_nat (n div 2)" using ih(1) by presburger
      have b: "2 * 2 ^ fls_nat (n div 2) \<le> 2 * n" using ih(2) nz by presburger
      show ?thesis unfolding f using a b by simp
    qed
  qed
qed


lemma fls_nat_le32:
  assumes "n < 2 ^ 32"
  shows "fls_nat n \<le> 32"
proof (cases "n = 0")
  case True
  then show ?thesis by (simp add: fls_nat.simps [of 0])
next
  case False
  then have "2 ^ fls_nat n \<le> 2 * n" using fls_nat_bounds [of n] by simp
  also have "\<dots> < 2 ^ 33" using assms by simp
  finally have "(2::nat) ^ fls_nat n < 2 ^ 33" .
  then have "fls_nat n < 33" by (rule power_less_imp_less_exp [rotated]) simp
  then show ?thesis by simp
qed

lemma unat_pow2_u64:
  assumes "k \<le> 32"
  shows "unat (push_bit k 1 :: u64) = 2 ^ k"
proof -
  have "(2::nat) ^ k \<le> 2 ^ 32" using assms by (intro power_increasing) simp_all
  also have "(2::nat) ^ 32 < 2 ^ 64" by simp
  finally have "(2::nat) ^ k < 2 ^ 64" .
  then have "unat (word_of_nat (2 ^ k) :: u64) = 2 ^ k"
    by (simp add: unat_of_nat del: of_nat_power)
  then show ?thesis
    by (simp add: push_bit_eq_mult)
qed

lemma roundup_pow_of_two_u32:
  assumes "x \<noteq> (0::u32)"
  shows "unat (roundup_pow_of_two (ucast x)) = 2 ^ fls_nat (unat x - 1)"
    and "fls_nat (unat x - 1) \<le> 32"
    and "unat x \<le> 2 ^ fls_nat (unat x - 1)"
    and "2 ^ fls_nat (unat x - 1) < 2 * unat x"
proof -
  have pos: "0 < unat x" using assms by (simp add: unat_gt_0)
  have lt: "unat x < 2 ^ 32" using unsigned_less [of x, where 'a = nat] by simp
  have u: "unat (ucast x :: u64) = unat x"
    using lt by (simp add: unsigned_ucast_eq take_bit_nat_eq_self)
  have nz: "(ucast x :: u64) \<noteq> 0"
    using u pos by (metis unat_eq_zero not_less_zero)
  have m1: "unat ((ucast x :: u64) - 1) = unat x - 1"
    using nz u by (simp add: unat_minus_one)
  show k32: "fls_nat (unat x - 1) \<le> 32"
    using lt by (intro fls_nat_le32) simp
  show "unat (roundup_pow_of_two (ucast x)) = 2 ^ fls_nat (unat x - 1)"
    unfolding roundup_pow_of_two_def fls_long_def m1 using k32 by (rule unat_pow2_u64)
  show "unat x \<le> 2 ^ fls_nat (unat x - 1)"
    using fls_nat_bounds [of "unat x - 1"] pos by linarith
  show "2 ^ fls_nat (unat x - 1) < 2 * unat x"
  proof (cases "unat x = 1")
    case True
    then show ?thesis by (simp add: fls_nat.simps [of 0])
  next
    case False
    then have "0 < unat x - 1" using pos by simp
    then have "2 ^ fls_nat (unat x - 1) \<le> 2 * (unat x - 1)"
      using fls_nat_bounds [of "unat x - 1"] by simp
    then show ?thesis using pos by linarith
  qed
qed


lemma stack_map_alloc_unfold:
  "stack_map_alloc env sz attr =
    (if \<not> capable_sys_admin env then Inl EPERM
     else if attr_bad attr then Inl EINVAL
     else if table_cost sz attr \<ge> cost_limit then Inl E2BIG
     else if \<not> kzalloc_ok env \<and> \<not> vzalloc_ok env then Inl ENOMEM
     else if total_cost sz attr \<ge> cost_limit then Inl E2BIG
     else (case get_callchain_buffers env of
             Some err \<Rightarrow> Inl err
           | None \<Rightarrow>
               Inr \<lparr> map_type = attr_map_type attr,
                     key_size = attr_key_size attr, value_size = attr_value_size attr,
                     max_entries = attr_max_entries attr,
                     pages = ucast (drop_bit PAGE_SHIFT (round_up (total_cost sz attr) PAGE_SIZE)),
                     n_buckets = ucast (roundup_pow_of_two (ucast (attr_max_entries attr))),
                     buckets = replicate (unat (roundup_pow_of_two (ucast (attr_max_entries attr)))) None \<rparr>))"
  unfolding stack_map_alloc_def Let_def attr_bad_def cost_limit_def table_cost_def total_cost_def
  by (rule refl)

lemma table_cost_small:
  assumes me: "attr_max_entries attr \<noteq> 0"
    and c: "table_cost sz attr < cost_limit"
  shows "unat (roundup_pow_of_two (ucast (attr_max_entries attr))) < 2 ^ 29"
proof -
  let ?n = "roundup_pow_of_two (ucast (attr_max_entries attr))"
  note r = roundup_pow_of_two_u32 [OF me]
  have "(2::nat) ^ fls_nat (unat (attr_max_entries attr) - 1) \<le> 2 ^ 32"
    using r(2) by (intro power_increasing) simp_all
  then have n32: "unat ?n \<le> 2 ^ 32" using r(1) by simp
  have sz32: "unat (ucast sz :: u64) < 2 ^ 32"
    using unsigned_less [of sz, where 'a = nat] by (simp add: unsigned_ucast_eq take_bit_nat_eq_self)
  have n8: "unat (?n * 8) = unat ?n * 8"
    using n32 by (simp add: unat_word_ariths)
  have tc: "unat (table_cost sz attr) = unat ?n * 8 + unat (ucast sz :: u64)"
    unfolding table_cost_def using n32 sz32 n8 by (simp add: unat_word_ariths)
  have lim: "unat cost_limit = 2 ^ 32 - 1 - 4096"
    by (simp add: cost_limit_def U32_MAX_def PAGE_SIZE_def PAGE_SHIFT_def)
  have "unat (table_cost sz attr) < unat cost_limit"
    using c by (simp add: word_less_nat_alt)
  then show ?thesis using tc lim by simp
qed

lemma fls_nat_numeral [simp]:
  "fls_nat 0 = 0"
  "fls_nat (Suc 0) = Suc 0"
  "fls_nat (numeral k) = Suc (fls_nat (numeral k div 2))"
  by (simp_all add: fls_nat.simps [of 0] fls_nat.simps [of "Suc 0"] fls_nat.simps [of "numeral k"])

lemma replicate4: "replicate 4 x = [x, x, x, x]"
  by (simp add: numeral_eq_Suc)

section \<open>Auxiliary facts about the format check\<close>

lemma count_pct_Suc:
  "count_pct fmt (Suc i) = count_pct fmt i + (if fmt ! i = c_percent then 1 else 0)"
  by (simp add: count_pct_def)

lemma count_pct_mono: "i \<le> j \<Longrightarrow> count_pct fmt i \<le> count_pct fmt j"
proof (induction j)
  case 0
  then show ?case by simp
next
  case (Suc j)
  then show ?case by (cases "i = Suc j") (auto simp add: count_pct_Suc)
qed

lemma count_pct_less:
  assumes "j < i" "fmt ! j = c_percent"
  shows "count_pct fmt j < count_pct fmt i"
proof -
  have "count_pct fmt (Suc j) \<le> count_pct fmt i" using assms(1) by (intro count_pct_mono) simp
  then show ?thesis using assms(2) by (simp add: count_pct_Suc)
qed

lemmas chars = c_percent_def c_l_def c_p_def c_s_def c_d_def c_u_def c_x_def


lemma printk_int_cases:
  assumes "printk_int fmt st = Inr st'"
  shows "\<exists>n. (n = 0 \<or> n = 1) \<and> l_i st' = l_i st + n \<and>
           (\<forall>p. p \<le> n \<longrightarrow> fmt ! (l_i st + p) \<noteq> c_percent \<and> fmt ! (l_i st + p) \<noteq> c_s) \<and>
           l_fmt_cnt st' = l_fmt_cnt st + 1 \<and>
           length (l_mod st') = length (l_mod st) \<and>
           (\<forall>q. q \<noteq> l_fmt_cnt st \<longrightarrow> l_mod st' ! q = l_mod st ! q) \<and>
           l_str_seen st' = l_str_seen st \<and> l_r3 st' = l_r3 st \<and> l_r4 st' = l_r4 st \<and>
           l_r5 st' = l_r5 st \<and> l_buf st' = l_buf st"
proof (cases "fmt ! l_i st = c_l")
  case True
  with assms show ?thesis
    by (intro exI [of _ 1]) (auto simp add: printk_int_def Let_def chars le_Suc_eq split: if_splits)
next
  case False
  with assms show ?thesis
    by (intro exI [of _ 0]) (auto simp add: printk_int_def Let_def chars split: if_splits)
qed


lemma printk_body_cases:
  assumes "printk_body mem frame fmt st = Inr st'"
  shows "(fmt ! l_i st \<noteq> c_percent \<and> st' = st) \<or>
         (fmt ! l_i st = c_percent \<and> l_fmt_cnt st < 3 \<and>
            (plain_step fmt st st' \<or> string_step mem frame fmt st st'))"
proof (cases "fmt ! l_i st = c_percent")
  case False
  with assms show ?thesis
    by (auto simp add: printk_body_def split: if_splits)
next
  case pct: True
  from assms pct have cnt: "l_fmt_cnt st < 3"
    by (auto simp add: printk_body_def split: if_splits)
  let ?st1 = "st \<lparr> l_i := l_i st + 1 \<rparr>"
  show ?thesis
  proof (cases "fmt ! (l_i st + 1) = c_l")
    case True
    let ?st2 = "?st1 \<lparr> l_mod := (l_mod st)[l_fmt_cnt st := l_mod st ! l_fmt_cnt st + 1],
                       l_i := l_i st + 2 \<rparr>"
    from assms pct cnt True have "printk_int fmt ?st2 = Inr st'"
      by (auto simp add: printk_body_def Let_def split: if_splits)
    from printk_int_cases [OF this] obtain n where n: "n = 0 \<or> n = 1"
      and f: "l_i st' = l_i st + 2 + n"
        "\<forall>p. p \<le> n \<longrightarrow> fmt ! (l_i st + 2 + p) \<noteq> c_percent \<and> fmt ! (l_i st + 2 + p) \<noteq> c_s"
        "l_fmt_cnt st' = l_fmt_cnt st + 1"
        "length (l_mod st') = length (l_mod st)"
        "\<forall>q. q \<noteq> l_fmt_cnt st \<longrightarrow> l_mod st' ! q = l_mod st ! q"
        "l_str_seen st' = l_str_seen st" "l_r3 st' = l_r3 st" "l_r4 st' = l_r4 st"
        "l_r5 st' = l_r5 st" "l_buf st' = l_buf st"
      by auto
    have "\<forall>p. 1 \<le> p \<and> p \<le> 2 + n \<longrightarrow>
            fmt ! (l_i st + p) \<noteq> c_percent \<and> fmt ! (l_i st + p) \<noteq> c_s"
    proof (intro allI impI)
      fix p assume p: "1 \<le> p \<and> p \<le> 2 + n"
      show "fmt ! (l_i st + p) \<noteq> c_percent \<and> fmt ! (l_i st + p) \<noteq> c_s"
      proof (cases "p = 1")
        case True
        then show ?thesis using \<open>fmt ! (l_i st + 1) = c_l\<close> by (simp add: chars)
      next
        case False
        then obtain p' where "p = 2 + p'" "p' \<le> n" using p by (metis add_2_eq_Suc' le_Suc_eq less_eq_Suc_le nat_le_iff_add not_less_eq_eq one_add_one plus_1_eq_Suc add_le_cancel_left)
        then show ?thesis using f(2) by (simp add: add.assoc)
      qed
    qed
    then have "plain_step fmt st st'"
      unfolding plain_step_def using n f by (intro exI [of _ "2 + n"]) auto
    then show ?thesis using pct cnt by simp
  next
    case nl: False
    show ?thesis
    proof (cases "fmt ! (l_i st + 1) = c_p \<or> fmt ! (l_i st + 1) = c_s")
      case False
      from assms pct cnt nl False have "printk_int fmt ?st1 = Inr st'"
        by (auto simp add: printk_body_def Let_def split: if_splits)
      from printk_int_cases [OF this] obtain n where n: "n = 0 \<or> n = 1"
        and f: "l_i st' = l_i st + 1 + n"
          "\<forall>p. p \<le> n \<longrightarrow> fmt ! (l_i st + 1 + p) \<noteq> c_percent \<and> fmt ! (l_i st + 1 + p) \<noteq> c_s"
          "l_fmt_cnt st' = l_fmt_cnt st + 1"
          "length (l_mod st') = length (l_mod st)"
          "\<forall>q. q \<noteq> l_fmt_cnt st \<longrightarrow> l_mod st' ! q = l_mod st ! q"
          "l_str_seen st' = l_str_seen st" "l_r3 st' = l_r3 st" "l_r4 st' = l_r4 st"
          "l_r5 st' = l_r5 st" "l_buf st' = l_buf st"
        by auto
      have "\<forall>p. 1 \<le> p \<and> p \<le> 1 + n \<longrightarrow>
              fmt ! (l_i st + p) \<noteq> c_percent \<and> fmt ! (l_i st + p) \<noteq> c_s"
      proof (intro allI impI)
        fix p assume p: "1 \<le> p \<and> p \<le> 1 + n"
        then obtain p' where "p = 1 + p'" "p' \<le> n"
          by (metis add_le_cancel_left le_iff_add)
        then show "fmt ! (l_i st + p) \<noteq> c_percent \<and> fmt ! (l_i st + p) \<noteq> c_s"
          using f(2) by (simp add: add.assoc)
      qed
      then have "plain_step fmt st st'"
        unfolding plain_step_def using n f by (intro exI [of _ "1 + n"]) auto
      then show ?thesis using pct cnt by simp
    next
      case ps: True
      show ?thesis
      proof (cases "fmt ! (l_i st + 1) = c_s")
        case False
        with ps have p: "fmt ! (l_i st + 1) = c_p" by simp
        from assms pct cnt nl p
        have "st' = ?st1 \<lparr> l_mod := (l_mod st)[l_fmt_cnt st := l_mod st ! l_fmt_cnt st + 1],
                            l_fmt_cnt := l_fmt_cnt st + 1 \<rparr>"
          by (auto simp add: printk_body_def Let_def chars split: if_splits)
        then have "plain_step fmt st st'"
          unfolding plain_step_def using p
          by (intro exI [of _ 1]) (auto simp add: chars)
        then show ?thesis using pct cnt by simp
      next
        case s: True
        from cnt consider "l_fmt_cnt st = 0" | "l_fmt_cnt st = 1" | "l_fmt_cnt st = 2"
          by arith
        then have "string_step mem frame fmt st st'"
        proof cases
          case 1
          with assms pct nl s show ?thesis
            unfolding string_step_def
            by (auto simp add: printk_body_def Let_def chars split: if_splits)
        next
          case 2
          with assms pct nl s show ?thesis
            unfolding string_step_def
            by (auto simp add: printk_body_def Let_def chars split: if_splits)
        next
          case 3
          with assms pct nl s show ?thesis
            unfolding string_step_def
            by (auto simp add: printk_body_def Let_def chars split: if_splits)
        qed
        then show ?thesis using pct cnt by simp
      qed
    qed
  qed
qed




lemma count_pct_skip:
  assumes "i \<le> k" "\<forall>p. i \<le> p \<and> p < k \<longrightarrow> fmt ! p \<noteq> c_percent"
  shows "count_pct fmt k = count_pct fmt i"
  using assms
proof (induction k)
  case 0
  then show ?case by simp
next
  case (Suc k)
  show ?case
  proof (cases "i = Suc k")
    case True
    then show ?thesis by simp
  next
    case False
    with Suc.prems have "i \<le> k" by simp
    moreover have "\<forall>p. i \<le> p \<and> p < k \<longrightarrow> fmt ! p \<noteq> c_percent" using Suc.prems by simp
    ultimately have "count_pct fmt k = count_pct fmt i" by (rule Suc.IH)
    moreover have "fmt ! k \<noteq> c_percent" using Suc.prems \<open>i \<le> k\<close> by simp
    ultimately show ?thesis by (simp add: count_pct_Suc)
  qed
qed

lemma count_pct_spec:
  assumes pct: "fmt ! i = c_percent"
    and rest: "\<forall>p. 1 \<le> p \<and> p \<le> n \<longrightarrow> fmt ! (i + p) \<noteq> c_percent"
  shows "count_pct fmt (i + n + 1) = count_pct fmt i + 1"
proof -
  have "\<forall>p. Suc i \<le> p \<and> p < i + n + 1 \<longrightarrow> fmt ! p \<noteq> c_percent"
  proof (intro allI impI)
    fix p assume p: "Suc i \<le> p \<and> p < i + n + 1"
    then have "\<exists>q. p = i + q \<and> 1 \<le> q \<and> q \<le> n"
      by presburger
    then show "fmt ! p \<noteq> c_percent" using rest by auto
  qed
  then have "count_pct fmt (i + n + 1) = count_pct fmt (Suc i)"
    by (intro count_pct_skip) simp_all
  then show ?thesis using pct by (simp add: count_pct_Suc)
qed


lemma printk_invI:
  assumes "length (l_mod st') = 3"
    and "l_fmt_cnt st' = count_pct fmt k"
    and "\<forall>m. l_fmt_cnt st' \<le> m \<and> m < 3 \<longrightarrow> l_mod st' ! m = 0"
    and "l_str_seen st' \<Longrightarrow>
          \<exists>j. j < k \<and> fmt ! j = c_percent \<and> fmt ! (j + 1) = c_s \<and> count_pct fmt j < 3 \<and>
            (\<forall>j'. j' < k \<and> fmt ! j' = c_percent \<and> fmt ! (j' + 1) = c_s \<longrightarrow> j' = j) \<and>
            [l_r3 st', l_r4 st', l_r5 st'] ! count_pct fmt j = buf_addr frame \<and>
            l_mod st' ! count_pct fmt j = 1 \<and>
            l_buf st' = snd (strncpy_from_unsafe mem ((buf_init frame)[0 := 0])
                         ([r3, r4, r5] ! count_pct fmt j) 64)"
    and "\<not> l_str_seen st' \<Longrightarrow>
          (\<forall>j. j < k \<and> fmt ! j = c_percent \<longrightarrow> fmt ! (j + 1) \<noteq> c_s) \<and>
          l_r3 st' = r3 \<and> l_r4 st' = r4 \<and> l_r5 st' = r5 \<and> l_buf st' = buf_init frame"
  shows "printk_inv mem frame fmt r3 r4 r5 (st' \<lparr> l_i := k \<rparr>)"
proof (cases "l_str_seen st'")
  case True
  with assms(1-3) assms(4) [OF True] show ?thesis
    unfolding printk_inv_def by (simp del: One_nat_def)
next
  case False
  with assms(1-3) assms(5) [OF False] show ?thesis
    unfolding printk_inv_def by (simp del: One_nat_def)
qed


lemma printk_inv_plain:
  assumes inv: "printk_inv mem frame fmt r3 r4 r5 st"
    and pct: "fmt ! l_i st = c_percent" and cnt: "l_fmt_cnt st < 3"
    and step: "plain_step fmt st st'"
  shows "printk_inv mem frame fmt r3 r4 r5 (st' \<lparr> l_i := l_i st' + 1 \<rparr>)"
proof -
  let ?i = "l_i st"
  from step obtain n where n: "1 \<le> n" "n \<le> 3" and i': "l_i st' = ?i + n"
    and skip: "\<forall>p. 1 \<le> p \<and> p \<le> n \<longrightarrow> fmt ! (?i + p) \<noteq> c_percent \<and> fmt ! (?i + p) \<noteq> c_s"
    and fc: "l_fmt_cnt st' = l_fmt_cnt st + 1"
    and lm: "length (l_mod st') = length (l_mod st)"
    and md: "\<forall>q. q \<noteq> l_fmt_cnt st \<longrightarrow> l_mod st' ! q = l_mod st ! q"
    and same: "l_str_seen st' = l_str_seen st" "l_r3 st' = l_r3 st" "l_r4 st' = l_r4 st"
      "l_r5 st' = l_r5 st" "l_buf st' = l_buf st"
    unfolding plain_step_def by blast
  from inv have len: "length (l_mod st) = 3" and c: "l_fmt_cnt st = count_pct fmt ?i"
    and z: "\<forall>m. l_fmt_cnt st \<le> m \<and> m < 3 \<longrightarrow> l_mod st ! m = 0"
    by (simp_all add: printk_inv_def)
  have cnt': "count_pct fmt (?i + n + 1) = count_pct fmt ?i + 1"
    using pct skip by (intro count_pct_spec) auto
  have next_not_s: "fmt ! (?i + 1) \<noteq> c_s" using skip n by auto
  have old: "j < ?i" if "j < ?i + n + 1" "fmt ! j = c_percent" "fmt ! (j + 1) = c_s" for j
  proof (rule ccontr)
    assume "\<not> j < ?i"
    then have "j = ?i \<or> (\<exists>p. 1 \<le> p \<and> p \<le> n \<and> j = ?i + p)"
      using that(1) by presburger
    then show False using that(2,3) next_not_s skip by auto
  qed
  show ?thesis
  proof (rule printk_invI)
    show "length (l_mod st') = 3" using lm len by simp
    show "l_fmt_cnt st' = count_pct fmt (l_i st' + 1)" using fc c cnt' i' by simp
    show "\<forall>m. l_fmt_cnt st' \<le> m \<and> m < 3 \<longrightarrow> l_mod st' ! m = 0" using fc md z by auto
  next
    assume "\<not> l_str_seen st'"
    then have ns: "\<not> l_str_seen st" using same by simp
    with inv have no: "\<forall>j. j < ?i \<and> fmt ! j = c_percent \<longrightarrow> fmt ! (j + 1) \<noteq> c_s"
      and regs: "l_r3 st = r3" "l_r4 st = r4" "l_r5 st = r5" "l_buf st = buf_init frame"
      by (simp_all add: printk_inv_def)
    have "\<forall>j. j < l_i st' + 1 \<and> fmt ! j = c_percent \<longrightarrow> fmt ! (j + 1) \<noteq> c_s"
      unfolding i' using old no by blast
    then show "(\<forall>j. j < l_i st' + 1 \<and> fmt ! j = c_percent \<longrightarrow> fmt ! (j + 1) \<noteq> c_s) \<and>
          l_r3 st' = r3 \<and> l_r4 st' = r4 \<and> l_r5 st' = r5 \<and> l_buf st' = buf_init frame"
      using same regs by simp
  next
    assume "l_str_seen st'"
    then have ss: "l_str_seen st" using same by simp
    from inv ss have "\<exists>j. j < ?i \<and> fmt ! j = c_percent \<and> fmt ! (j + 1) = c_s \<and>
            count_pct fmt j < 3 \<and>
            (\<forall>j'. j' < ?i \<and> fmt ! j' = c_percent \<and> fmt ! (j' + 1) = c_s \<longrightarrow> j' = j) \<and>
            [l_r3 st, l_r4 st, l_r5 st] ! count_pct fmt j = buf_addr frame \<and>
            l_mod st ! count_pct fmt j = 1 \<and>
            l_buf st = snd (strncpy_from_unsafe mem ((buf_init frame)[0 := 0])
                         ([r3, r4, r5] ! count_pct fmt j) 64)"
      unfolding printk_inv_def by (simp only: if_True)
    then obtain j where jall: "j < ?i \<and> fmt ! j = c_percent \<and> fmt ! (j + 1) = c_s \<and>
            count_pct fmt j < 3 \<and>
            (\<forall>j'. j' < ?i \<and> fmt ! j' = c_percent \<and> fmt ! (j' + 1) = c_s \<longrightarrow> j' = j) \<and>
            [l_r3 st, l_r4 st, l_r5 st] ! count_pct fmt j = buf_addr frame \<and>
            l_mod st ! count_pct fmt j = 1 \<and>
            l_buf st = snd (strncpy_from_unsafe mem ((buf_init frame)[0 := 0])
                         ([r3, r4, r5] ! count_pct fmt j) 64)"
      by (rule exE)
    note j = jall [THEN conjunct1]
      jall [THEN conjunct2, THEN conjunct1]
      jall [THEN conjunct2, THEN conjunct2, THEN conjunct1]
      jall [THEN conjunct2, THEN conjunct2, THEN conjunct2, THEN conjunct1]
      jall [THEN conjunct2, THEN conjunct2, THEN conjunct2, THEN conjunct2, THEN conjunct1]
      jall [THEN conjunct2, THEN conjunct2, THEN conjunct2, THEN conjunct2, THEN conjunct2,
        THEN conjunct1]
      jall [THEN conjunct2, THEN conjunct2, THEN conjunct2, THEN conjunct2, THEN conjunct2,
        THEN conjunct2, THEN conjunct1]
      jall [THEN conjunct2, THEN conjunct2, THEN conjunct2, THEN conjunct2, THEN conjunct2,
        THEN conjunct2, THEN conjunct2]
    have kl: "count_pct fmt j \<noteq> l_fmt_cnt st"
      using count_pct_less [OF j(1) j(2)] c by simp
    have uniq: "\<forall>j'. j' < l_i st' + 1 \<and> fmt ! j' = c_percent \<and> fmt ! (j' + 1) = c_s \<longrightarrow> j' = j"
      unfolding i' using old j(5) by blast
    have jlt: "j < l_i st' + 1" using j(1) i' by simp
    have m1: "l_mod st' ! count_pct fmt j = 1" using md kl j(7) by simp
    show "\<exists>j. j < l_i st' + 1 \<and> fmt ! j = c_percent \<and> fmt ! (j + 1) = c_s \<and> count_pct fmt j < 3 \<and>
            (\<forall>j'. j' < l_i st' + 1 \<and> fmt ! j' = c_percent \<and> fmt ! (j' + 1) = c_s \<longrightarrow> j' = j) \<and>
            [l_r3 st', l_r4 st', l_r5 st'] ! count_pct fmt j = buf_addr frame \<and>
            l_mod st' ! count_pct fmt j = 1 \<and>
            l_buf st' = snd (strncpy_from_unsafe mem ((buf_init frame)[0 := 0])
                         ([r3, r4, r5] ! count_pct fmt j) 64)"
    proof (intro exI [of _ j] conjI)
      show "j < l_i st' + 1" by (rule jlt)
      show "fmt ! j = c_percent" by (rule j(2))
      show "fmt ! (j + 1) = c_s" by (rule j(3))
      show "count_pct fmt j < 3" by (rule j(4))
      show "\<forall>j'. j' < l_i st' + 1 \<and> fmt ! j' = c_percent \<and> fmt ! (j' + 1) = c_s \<longrightarrow> j' = j"
        by (rule uniq)
      show "[l_r3 st', l_r4 st', l_r5 st'] ! count_pct fmt j = buf_addr frame"
        using j(6) same(2-4) by simp
      show "l_mod st' ! count_pct fmt j = 1" by (rule m1)
      show "l_buf st' = snd (strncpy_from_unsafe mem ((buf_init frame)[0 := 0])
                         ([r3, r4, r5] ! count_pct fmt j) 64)"
        using j(8) same(5) by simp
    qed
  qed
qed


lemma printk_inv_other:
  assumes inv: "printk_inv mem frame fmt r3 r4 r5 st"
    and np: "fmt ! l_i st \<noteq> c_percent"
  shows "printk_inv mem frame fmt r3 r4 r5 (st \<lparr> l_i := l_i st + 1 \<rparr>)"
proof -
  let ?i = "l_i st"
  from inv have len: "length (l_mod st) = 3" and c: "l_fmt_cnt st = count_pct fmt ?i"
    and z: "\<forall>m. l_fmt_cnt st \<le> m \<and> m < 3 \<longrightarrow> l_mod st ! m = 0"
    by (simp_all add: printk_inv_def)
  have old: "j < ?i" if "j < ?i + 1" "fmt ! j = c_percent" for j
    using that np by (cases "j = ?i") auto
  show ?thesis
  proof (rule printk_invI)
    show "length (l_mod st) = 3" by (rule len)
    show "l_fmt_cnt st = count_pct fmt (?i + 1)" using c np by (simp add: count_pct_Suc)
    show "\<forall>m. l_fmt_cnt st \<le> m \<and> m < 3 \<longrightarrow> l_mod st ! m = 0" by (rule z)
  next
    assume ns: "\<not> l_str_seen st"
    with inv have no: "\<forall>j. j < ?i \<and> fmt ! j = c_percent \<longrightarrow> fmt ! (j + 1) \<noteq> c_s"
      and regs: "l_r3 st = r3 \<and> l_r4 st = r4 \<and> l_r5 st = r5 \<and> l_buf st = buf_init frame"
      by (simp_all add: printk_inv_def)
    have "\<forall>j. j < ?i + 1 \<and> fmt ! j = c_percent \<longrightarrow> fmt ! (j + 1) \<noteq> c_s"
      using old no by blast
    then show "(\<forall>j. j < ?i + 1 \<and> fmt ! j = c_percent \<longrightarrow> fmt ! (j + 1) \<noteq> c_s) \<and>
          l_r3 st = r3 \<and> l_r4 st = r4 \<and> l_r5 st = r5 \<and> l_buf st = buf_init frame"
      using regs by (rule conjI)
  next
    assume ss: "l_str_seen st"
    from inv ss have "\<exists>j. j < ?i \<and> fmt ! j = c_percent \<and> fmt ! (j + 1) = c_s \<and>
            count_pct fmt j < 3 \<and>
            (\<forall>j'. j' < ?i \<and> fmt ! j' = c_percent \<and> fmt ! (j' + 1) = c_s \<longrightarrow> j' = j) \<and>
            [l_r3 st, l_r4 st, l_r5 st] ! count_pct fmt j = buf_addr frame \<and>
            l_mod st ! count_pct fmt j = 1 \<and>
            l_buf st = snd (strncpy_from_unsafe mem ((buf_init frame)[0 := 0])
                         ([r3, r4, r5] ! count_pct fmt j) 64)"
      unfolding printk_inv_def by (simp only: if_True)
    then obtain j where jall: "j < ?i \<and> fmt ! j = c_percent \<and> fmt ! (j + 1) = c_s \<and>
            count_pct fmt j < 3 \<and>
            (\<forall>j'. j' < ?i \<and> fmt ! j' = c_percent \<and> fmt ! (j' + 1) = c_s \<longrightarrow> j' = j) \<and>
            [l_r3 st, l_r4 st, l_r5 st] ! count_pct fmt j = buf_addr frame \<and>
            l_mod st ! count_pct fmt j = 1 \<and>
            l_buf st = snd (strncpy_from_unsafe mem ((buf_init frame)[0 := 0])
                         ([r3, r4, r5] ! count_pct fmt j) 64)"
      by (rule exE)
    note j1 = jall [THEN conjunct1]
    note rest = jall [THEN conjunct2, THEN conjunct2, THEN conjunct2]
    note j5 = rest [THEN conjunct2, THEN conjunct1]
    have uniq: "\<forall>j'. j' < ?i + 1 \<and> fmt ! j' = c_percent \<and> fmt ! (j' + 1) = c_s \<longrightarrow> j' = j"
      using old j5 by blast
    show "\<exists>j. j < ?i + 1 \<and> fmt ! j = c_percent \<and> fmt ! (j + 1) = c_s \<and> count_pct fmt j < 3 \<and>
            (\<forall>j'. j' < ?i + 1 \<and> fmt ! j' = c_percent \<and> fmt ! (j' + 1) = c_s \<longrightarrow> j' = j) \<and>
            [l_r3 st, l_r4 st, l_r5 st] ! count_pct fmt j = buf_addr frame \<and>
            l_mod st ! count_pct fmt j = 1 \<and>
            l_buf st = snd (strncpy_from_unsafe mem ((buf_init frame)[0 := 0])
                         ([r3, r4, r5] ! count_pct fmt j) 64)"
    proof (intro exI [of _ j] conjI)
      show "j < ?i + 1" using j1 by simp
      show "fmt ! j = c_percent" by (rule jall [THEN conjunct2, THEN conjunct1])
      show "fmt ! (j + 1) = c_s" by (rule jall [THEN conjunct2, THEN conjunct2, THEN conjunct1])
      show "count_pct fmt j < 3" by (rule rest [THEN conjunct1])
      show "\<forall>j'. j' < ?i + 1 \<and> fmt ! j' = c_percent \<and> fmt ! (j' + 1) = c_s \<longrightarrow> j' = j"
        by (rule uniq)
      show "[l_r3 st, l_r4 st, l_r5 st] ! count_pct fmt j = buf_addr frame"
        by (rule rest [THEN conjunct2, THEN conjunct2, THEN conjunct1])
      show "l_mod st ! count_pct fmt j = 1"
        by (rule rest [THEN conjunct2, THEN conjunct2, THEN conjunct2, THEN conjunct1])
      show "l_buf st = snd (strncpy_from_unsafe mem ((buf_init frame)[0 := 0])
                         ([r3, r4, r5] ! count_pct fmt j) 64)"
        by (rule rest [THEN conjunct2, THEN conjunct2, THEN conjunct2, THEN conjunct2])
    qed
  qed
qed

lemma printk_inv_string:
  assumes inv: "printk_inv mem frame fmt r3 r4 r5 st"
    and pct: "fmt ! l_i st = c_percent" and cnt: "l_fmt_cnt st < 3"
    and step: "string_step mem frame fmt st st'"
  shows "printk_inv mem frame fmt r3 r4 r5 (st' \<lparr> l_i := l_i st' + 1 \<rparr>)"
proof -
  let ?i = "l_i st"
  let ?k = "l_fmt_cnt st"
  from step have s: "fmt ! (?i + 1) = c_s" and ns: "\<not> l_str_seen st"
    and i': "l_i st' = ?i + 1" and fc: "l_fmt_cnt st' = ?k + 1"
    and md: "l_mod st' = (l_mod st)[?k := l_mod st ! ?k + 1]"
    and ss': "l_str_seen st'"
    and rg: "[l_r3 st', l_r4 st', l_r5 st'] = [l_r3 st, l_r4 st, l_r5 st][?k := buf_addr frame]"
    and bf: "l_buf st' = snd (strncpy_from_unsafe mem ((l_buf st)[0 := 0])
                        ([l_r3 st, l_r4 st, l_r5 st] ! ?k) 64)"
    by (simp_all add: string_step_def)
  from inv have len: "length (l_mod st) = 3" and c: "?k = count_pct fmt ?i"
    and z: "\<forall>m. ?k \<le> m \<and> m < 3 \<longrightarrow> l_mod st ! m = 0"
    by (simp_all add: printk_inv_def)
  from inv ns have no: "\<forall>j. j < ?i \<and> fmt ! j = c_percent \<longrightarrow> fmt ! (j + 1) \<noteq> c_s"
    and regs: "l_r3 st = r3" "l_r4 st = r4" "l_r5 st = r5" "l_buf st = buf_init frame"
    by (simp_all add: printk_inv_def)
  have snp: "fmt ! (?i + 1) \<noteq> c_percent" using s by (simp add: chars)
  have cnt': "count_pct fmt (?i + 1 + 1) = count_pct fmt ?i + 1"
    using pct snp by (intro count_pct_spec) auto
  have uniq: "j' = ?i" if "j' < ?i + 1 + 1" "fmt ! j' = c_percent" "fmt ! (j' + 1) = c_s" for j'
  proof -
    from that(1) have "j' < ?i \<or> j' = ?i \<or> j' = ?i + 1" by arith
    then show ?thesis using that(2,3) no snp by auto
  qed
  show ?thesis
  proof (rule printk_invI)
    show "length (l_mod st') = 3" using md len by simp
    show "l_fmt_cnt st' = count_pct fmt (l_i st' + 1)" using fc c cnt' i' by simp
    show "\<forall>m. l_fmt_cnt st' \<le> m \<and> m < 3 \<longrightarrow> l_mod st' ! m = 0" using fc md z by auto
  next
    assume "\<not> l_str_seen st'"
    with ss' show "(\<forall>j. j < l_i st' + 1 \<and> fmt ! j = c_percent \<longrightarrow> fmt ! (j + 1) \<noteq> c_s) \<and>
          l_r3 st' = r3 \<and> l_r4 st' = r4 \<and> l_r5 st' = r5 \<and> l_buf st' = buf_init frame"
      by simp
  next
    assume "l_str_seen st'"
    have ck: "count_pct fmt ?i = ?k" using c by simp
    show "\<exists>j. j < l_i st' + 1 \<and> fmt ! j = c_percent \<and> fmt ! (j + 1) = c_s \<and> count_pct fmt j < 3 \<and>
            (\<forall>j'. j' < l_i st' + 1 \<and> fmt ! j' = c_percent \<and> fmt ! (j' + 1) = c_s \<longrightarrow> j' = j) \<and>
            [l_r3 st', l_r4 st', l_r5 st'] ! count_pct fmt j = buf_addr frame \<and>
            l_mod st' ! count_pct fmt j = 1 \<and>
            l_buf st' = snd (strncpy_from_unsafe mem ((buf_init frame)[0 := 0])
                         ([r3, r4, r5] ! count_pct fmt j) 64)"
    proof (intro exI [of _ ?i] conjI)
      show "?i < l_i st' + 1" using i' by simp
      show "fmt ! ?i = c_percent" by (rule pct)
      show "fmt ! (?i + 1) = c_s" by (rule s)
      show "count_pct fmt ?i < 3" using cnt ck by simp
      show "\<forall>j'. j' < l_i st' + 1 \<and> fmt ! j' = c_percent \<and> fmt ! (j' + 1) = c_s \<longrightarrow> j' = ?i"
        unfolding i' using uniq by blast
      show "[l_r3 st', l_r4 st', l_r5 st'] ! count_pct fmt ?i = buf_addr frame"
        unfolding rg ck by (rule nth_list_update_eq) (use cnt in simp)
      show "l_mod st' ! count_pct fmt ?i = 1"
        unfolding md ck using cnt len z by simp
      show "l_buf st' = snd (strncpy_from_unsafe mem ((buf_init frame)[0 := 0])
                         ([r3, r4, r5] ! count_pct fmt ?i) 64)"
        unfolding bf ck using regs by simp
    qed
  qed
qed

lemma printk_inv_step:
  assumes inv: "printk_inv mem frame fmt r3 r4 r5 st"
    and body: "printk_body mem frame fmt st = Inr st'"
  shows "printk_inv mem frame fmt r3 r4 r5 (st' \<lparr> l_i := l_i st' + 1 \<rparr>)"
  using printk_body_cases [OF body]
proof (elim disjE conjE)
  assume "fmt ! l_i st \<noteq> c_percent" "st' = st"
  then show ?thesis using printk_inv_other [OF inv] by simp
next
  assume "fmt ! l_i st = c_percent" "l_fmt_cnt st < 3" "plain_step fmt st st'"
  then show ?thesis using inv by (intro printk_inv_plain)
next
  assume "fmt ! l_i st = c_percent" "l_fmt_cnt st < 3" "string_step mem frame fmt st st'"
  then show ?thesis using inv by (intro printk_inv_string)
qed

lemma printk_loop_inv:
  assumes "printk_inv mem frame fmt r3 r4 r5 st"
    and "printk_loop mem frame fmt fmt_size st = Inr st'"
  shows "printk_inv mem frame fmt r3 r4 r5 st' \<and> fmt_size \<le> l_i st'"
  using assms
proof (induction mem frame fmt fmt_size st rule: printk_loop.induct)
  case (1 mem frame fmt fmt_size st)
  show ?case
  proof (cases "l_i st < fmt_size")
    case False
    with "1.prems" show ?thesis by (simp add: printk_loop.simps [of mem frame fmt fmt_size st])
  next
    case True
    with "1.prems"(2) obtain st1 where b: "printk_body mem frame fmt st = Inr st1"
      and l: "printk_loop mem frame fmt fmt_size (st1 \<lparr> l_i := l_i st1 + 1 \<rparr>) = Inr st'"
      by (simp add: printk_loop.simps [of mem frame fmt fmt_size st] split: sum.splits)
    have "printk_inv mem frame fmt r3 r4 r5 (st1 \<lparr> l_i := l_i st1 + 1 \<rparr>)"
      using "1.prems"(1) b by (rule printk_inv_step)
    then show ?thesis using "1.IH" [OF True b] l by simp
  qed
qed



lemma printk_int_control:
  "map_sum id control (printk_int fmt st) = int_control fmt (control st)"
  by (simp add: printk_int_def int_control_def control_def Let_def)

lemma printk_body_control:
  "map_sum id control (printk_body mem frame fmt st) = body_control fmt (control st)"
proof -
  have a: "map_sum id control (printk_int fmt (st \<lparr> l_i := l_i st + 1 \<rparr>))
      = int_control fmt (l_i st + 1, l_fmt_cnt st, l_str_seen st)"
    by (simp add: printk_int_control) (simp add: control_def)
  have b: "map_sum id control (printk_int fmt
        (st \<lparr> l_i := l_i st + 1, l_mod := (l_mod st)[l_fmt_cnt st := l_mod st ! l_fmt_cnt st + 1],
              l_i := l_i st + 1 + 1 \<rparr>))
      = int_control fmt (l_i st + 2, l_fmt_cnt st, l_str_seen st)"
    by (simp add: printk_int_control) (simp add: control_def)
  show ?thesis
    unfolding printk_body_def body_control_def
    using a b
    by (simp add: control_def Let_def chars)
qed


lemma printk_loop_control:
  assumes "control st1 = control st2"
  shows "map_sum id control (printk_loop mem1 frame1 fmt fmt_size st1)
       = map_sum id control (printk_loop mem2 frame2 fmt fmt_size st2)"
  using assms
proof (induction mem1 frame1 fmt fmt_size st1 arbitrary: st2 rule: printk_loop.induct)
  case (1 mem1 frame1 fmt fmt_size st1)
  from "1.prems" have i: "l_i st1 = l_i st2" by (simp add: control_def)
  note u1 = printk_loop.simps [of mem1 frame1 fmt fmt_size st1]
  note u2 = printk_loop.simps [of mem2 frame2 fmt fmt_size st2]
  show ?case
  proof (cases "l_i st1 < fmt_size")
    case False
    then show ?thesis using "1.prems" i by (simp add: u1 u2)
  next
    case True
    have b: "map_sum id control (printk_body mem1 frame1 fmt st1)
           = map_sum id control (printk_body mem2 frame2 fmt st2)"
      using "1.prems" by (simp add: printk_body_control)
    show ?thesis
    proof (cases "printk_body mem1 frame1 fmt st1")
      case (Inl e)
      with b have "printk_body mem2 frame2 fmt st2 = Inl e"
        by (cases "printk_body mem2 frame2 fmt st2") simp_all
      with Inl True i show ?thesis by (simp add: u1 u2)
    next
      case (Inr a)
      with b obtain a2 where a2: "printk_body mem2 frame2 fmt st2 = Inr a2"
        and ca: "control a = control a2"
        by (cases "printk_body mem2 frame2 fmt st2") simp_all
      have "control (a \<lparr> l_i := l_i a + 1 \<rparr>) = control (a2 \<lparr> l_i := l_i a2 + 1 \<rparr>)"
        using ca by (simp add: control_def)
      from "1.IH" [OF True Inr this] Inr a2 True i show ?thesis
        by (simp add: u1 u2)
    qed
  qed
qed

lemma printk_int_einval: "printk_int fmt st = Inl e \<Longrightarrow> e = EINVAL"
  by (auto simp add: printk_int_def Let_def split: if_splits)

lemma printk_body_einval: "printk_body mem frame fmt st = Inl e \<Longrightarrow> e = EINVAL"
  by (auto simp add: printk_body_def Let_def split: if_splits dest: printk_int_einval)

lemma printk_loop_einval: "printk_loop mem frame fmt fmt_size st = Inl e \<Longrightarrow> e = EINVAL"
proof (induction mem frame fmt fmt_size st rule: printk_loop.induct)
  case (1 mem frame fmt fmt_size st)
  note u = printk_loop.simps [of mem frame fmt fmt_size st]
  show ?case
  proof (cases "l_i st < fmt_size")
    case False
    with "1.prems" show ?thesis by (simp add: u)
  next
    case True
    show ?thesis
    proof (cases "printk_body mem frame fmt st")
      case (Inl e')
      with True "1.prems" printk_body_einval [OF Inl] show ?thesis by (simp add: u)
    next
      case (Inr a)
      with True "1.prems" "1.IH" [OF True Inr] show ?thesis by (simp add: u)
    qed
  qed
qed

lemma printk_inv_init:
  "printk_inv mem frame fmt r3 r4 r5
     \<lparr> l_i = 0, l_fmt_cnt = 0, l_mod = [0, 0, 0], l_str_seen = False, l_unsafe_addr = u,
       l_r3 = r3, l_r4 = r4, l_r5 = r5, l_buf = buf_init frame \<rparr>"
proof -
  have "[0, 0, 0 :: nat] ! m = 0" if "m < 3" for m
  proof -
    from that consider "m = 0" | "m = 1" | "m = 2" by arith
    then show ?thesis by cases simp_all
  qed
  then show ?thesis
    by (simp add: printk_inv_def count_pct_def)
qed

lemma c_string_cleared: "c_string (xs[0 := 0]) = []"
  by (cases xs) (simp_all add: c_string_def)

lemma read_string_fault_nonzero:
  "read_string mem a n = (bs, True) \<Longrightarrow> 0 \<notin> set bs"
proof (induction n arbitrary: a bs)
  case 0
  then show ?case by simp
next
  case (Suc n)
  show ?case
  proof (cases "mem a")
    case None
    with Suc.prems show ?thesis by simp
  next
    case (Some b)
    show ?thesis
    proof (cases "b = 0")
      case True
      with Some Suc.prems show ?thesis by simp
    next
      case False
      obtain bs' f where r: "read_string mem (a + 1) n = (bs', f)"
        by (cases "read_string mem (a + 1) n")
      with Some False Suc.prems have "bs = b # bs'" "f" by simp_all
      with r Suc.IH [of "a + 1" bs'] False show ?thesis by auto
    qed
  qed
qed

lemma c_string_terminated: "0 \<notin> set bs \<Longrightarrow> c_string (bs @ 0 # xs) = bs"
  by (induction bs) (simp_all add: c_string_def)

lemma strncpy_from_unsafe_fault:
  assumes "fst (strncpy_from_unsafe mem dst a n) = Inl e"
  shows "e = EFAULT \<and> snd (read_string mem a n) \<and>
         c_string (snd (strncpy_from_unsafe mem dst a n)) = fst (read_string mem a n)"
proof -
  obtain bs f where r: "read_string mem a n = (bs, f)"
    by (cases "read_string mem a n")
  with assms have n: "n \<noteq> 0" and f: "f" and e: "e = EFAULT"
    by (auto simp add: strncpy_from_unsafe_def split: if_splits bool.splits)
  have "0 \<notin> set bs" using r f read_string_fault_nonzero [of mem a n bs] by simp
  then have "c_string (bs @ 0 # drop (length bs + 1) dst) = bs"
    by (rule c_string_terminated)
  then show ?thesis using r n f e by (simp add: strncpy_from_unsafe_def)
qed

lemma read_string_unreadable:
  "mem a = None \<Longrightarrow> 0 < n \<Longrightarrow> read_string mem a n = ([], True)"
  by (cases n) simp_all

lemma nth3:
  assumes "k < 3"
  shows "[f m0 x0, f m1 x1, f m2 x2] ! k = f ([m0, m1, m2] ! k) ([x0, x1, x2] ! k)"
proof -
  from assms consider "k = 0" | "k = 1" | "k = 2" by arith
  then show ?thesis by cases simp_all
qed

lemma list3: "length xs = 3 \<Longrightarrow> xs = [xs ! 0, xs ! 1, xs ! 2]"
  by (cases xs; cases "tl xs"; cases "tl (tl xs)") auto

lemma drop_nth:
  assumes "drop i fmt = xs" "k < length xs"
  shows "fmt ! (i + k) = xs ! k"
proof -
  have "i \<le> length fmt" using assms by (cases "i \<le> length fmt") auto
  then show ?thesis using assms(1) nth_drop [of i fmt k] by simp
qed

lemma drop_more:
  assumes "drop i fmt = xs"
  shows "drop (i + k) fmt = drop k xs"
  unfolding assms [symmetric] by (simp add: add.commute)

lemma valid_format_from_nonempty: "valid_format_from xs n s \<Longrightarrow> xs \<noteq> []"
  by (cases xs) simp_all

lemma percent_ok: "(isprint c_percent \<or> isspace c_percent) \<and> isascii c_percent"
  by (simp add: isprint_def isascii_def chars)

lemma char_distinct:
  "c_d \<noteq> c_l" "c_u \<noteq> c_l" "c_x \<noteq> c_l" "c_d \<noteq> c_p" "c_u \<noteq> c_p" "c_x \<noteq> c_p"
  "c_d \<noteq> c_s" "c_u \<noteq> c_s" "c_x \<noteq> c_s" "c_p \<noteq> c_l" "c_s \<noteq> c_l" "c_p \<noteq> c_s"
  by (simp_all add: chars)

lemma is_int_conv_not:
  assumes "is_int_conv c"
  shows "c \<noteq> c_l" "\<not> (c = c_p \<or> c = c_s)" "\<not> (c \<noteq> c_d \<and> c \<noteq> c_u \<and> c \<noteq> c_x)"
  using assms char_distinct by (auto simp add: is_int_conv_def)

lemma percent_pass:
  "\<not> ((\<not> isprint c_percent \<and> \<not> isspace c_percent) \<or> \<not> isascii c_percent)"
  using percent_ok by blast

lemma bc_plain:
  assumes "(isprint (fmt ! i) \<or> isspace (fmt ! i)) \<and> isascii (fmt ! i)" "fmt ! i \<noteq> c_percent"
  shows "body_control fmt (i, n, s) = Inr (i, n, s)"
proof -
  have c1: "\<not> ((\<not> isprint (fmt ! i) \<and> \<not> isspace (fmt ! i)) \<or> \<not> isascii (fmt ! i))"
    using assms(1) by blast
  show ?thesis
    unfolding body_control_def
    by (simp only: prod.case c1 assms(2) if_False if_True simp_thms)
qed

lemma bc_int:
  assumes "fmt ! i = c_percent" "n < 3" "is_int_conv (fmt ! (i + 1))"
  shows "body_control fmt (i, n, s) = Inr (i + 1, n + 1, s)"
proof -
  have c3: "\<not> 3 \<le> n" using assms(2) by simp
  show ?thesis
    unfolding body_control_def int_control_def
    by (simp only: prod.case percent_pass assms(1) c3
        is_int_conv_not [OF assms(3)] if_False if_True simp_thms Let_def)
qed

lemma bc_lint:
  assumes "fmt ! i = c_percent" "n < 3" "fmt ! (i + 1) = c_l" "is_int_conv (fmt ! (i + 2))"
  shows "body_control fmt (i, n, s) = Inr (i + 2, n + 1, s)"
proof -
  have c3: "\<not> 3 \<le> n" using assms(2) by simp
  show ?thesis
    unfolding body_control_def int_control_def
    by (simp only: prod.case percent_pass assms(1) c3 assms(3)
        is_int_conv_not [OF assms(4)] if_False if_True simp_thms Let_def)
qed

lemma bc_llint:
  assumes "fmt ! i = c_percent" "n < 3" "fmt ! (i + 1) = c_l" "fmt ! (i + 2) = c_l"
    "is_int_conv (fmt ! (i + 2 + 1))"
  shows "body_control fmt (i, n, s) = Inr (i + 2 + 1, n + 1, s)"
proof -
  have c3: "\<not> 3 \<le> n" using assms(2) by simp
  show ?thesis
    unfolding body_control_def int_control_def
    by (simp only: prod.case percent_pass assms(1) c3 assms(3) assms(4)
        is_int_conv_not [OF assms(5)] if_False if_True simp_thms Let_def)
qed

lemma bc_p:
  assumes "fmt ! i = c_percent" "n < 3" "fmt ! (i + 1) = c_p"
    "fmt ! (i + 2) = 0 \<or> isspace (fmt ! (i + 2)) \<or> ispunct (fmt ! (i + 2))"
  shows "body_control fmt (i, n, s) = Inr (i + 1, n + 1, s)"
proof -
  have c3: "\<not> 3 \<le> n" using assms(2) by simp
  have c4: "\<not> (fmt ! (i + 2) \<noteq> 0 \<and> \<not> isspace (fmt ! (i + 2)) \<and> \<not> ispunct (fmt ! (i + 2)))"
    using assms(4) by blast
  show ?thesis
    unfolding body_control_def
    by (simp only: prod.case percent_pass assms(1) c3 assms(3) c4
        char_distinct if_False if_True simp_thms)
qed

lemma bc_s:
  assumes "fmt ! i = c_percent" "n < 3" "fmt ! (i + 1) = c_s" "\<not> s"
    "fmt ! (i + 2) = 0 \<or> isspace (fmt ! (i + 2)) \<or> ispunct (fmt ! (i + 2))"
  shows "body_control fmt (i, n, s) = Inr (i + 1, n + 1, True)"
proof -
  have c3: "\<not> 3 \<le> n" using assms(2) by simp
  have c4: "\<not> (fmt ! (i + 2) \<noteq> 0 \<and> \<not> isspace (fmt ! (i + 2)) \<and> \<not> ispunct (fmt ! (i + 2)))"
    using assms(5) by blast
  show ?thesis
    unfolding body_control_def
    by (simp only: prod.case percent_pass assms(1) c3 assms(3) assms(4) c4
        char_distinct if_False if_True simp_thms)
qed


lemma valid_format_from_percent:
  assumes "valid_format_from (c_percent # c1 # r) n s"
  shows "n < 3"
    and "is_int_conv c1 \<Longrightarrow> valid_format_from r (n + 1) s"
    and "\<not> is_int_conv c1 \<Longrightarrow> c1 \<noteq> c_l \<Longrightarrow> c1 \<noteq> c_p \<Longrightarrow> c1 = c_s"
    and "c1 = c_p \<Longrightarrow> follows_ok r \<and> valid_format_from r (n + 1) s"
    and "c1 = c_s \<Longrightarrow> \<not> s \<and> follows_ok r \<and> valid_format_from r (n + 1) True"
proof -
  show "n < 3" using assms by simp
  show "is_int_conv c1 \<Longrightarrow> valid_format_from r (n + 1) s" using assms by simp
  show "\<not> is_int_conv c1 \<Longrightarrow> c1 \<noteq> c_l \<Longrightarrow> c1 \<noteq> c_p \<Longrightarrow> c1 = c_s"
    using assms by (simp split: if_splits)
  have np: "\<not> is_int_conv c_p" "\<not> is_int_conv c_s"
    using char_distinct by (auto simp add: is_int_conv_def)
  show "c1 = c_p \<Longrightarrow> follows_ok r \<and> valid_format_from r (n + 1) s"
    using assms np char_distinct by simp
  show "c1 = c_s \<Longrightarrow> \<not> s \<and> follows_ok r \<and> valid_format_from r (n + 1) True"
    using assms np char_distinct by simp
qed

lemma valid_format_from_l:
  assumes "valid_format_from (c_percent # c_l # r) n s"
  shows "\<exists>c2 r2. r = c2 # r2 \<and>
      (if is_int_conv c2 then valid_format_from r2 (n + 1) s
       else c2 = c_l \<and> (\<exists>c3 r3. r2 = c3 # r3 \<and> is_int_conv c3 \<and> valid_format_from r3 (n + 1) s))"
proof -
  have nl: "\<not> is_int_conv c_l"
    using char_distinct by (auto simp add: is_int_conv_def)
  show ?thesis
    using assms nl by (auto split: list.splits if_splits)
qed

lemma follows_okD:
  assumes "follows_ok r"
  shows "\<exists>c2 r2. r = c2 # r2 \<and> (c2 = 0 \<or> isspace c2 \<or> ispunct c2)"
  using assms unfolding follows_ok_def by (cases r) simp_all

lemma step_ok:
  assumes d: "drop i fmt = c # c1 # r"
    and ok: "valid_format_from (c # c1 # r) n s"
  shows "\<exists>i' n' s'. body_control fmt (i, n, s) = Inr (i', n', s') \<and> i \<le> i' \<and>
      valid_format_from (drop (i' + 1) fmt) n' s'"
proof -
  have f0: "fmt ! i = c" using drop_nth [OF d, of 0] by simp
  have f1: "fmt ! (i + 1) = c1" using drop_nth [OF d, of 1] by simp
  have d1: "drop (i + 1) fmt = c1 # r" using drop_more [OF d, of 1] by simp
  have d2: "drop (i + 2) fmt = r" using drop_more [OF d, of 2] by simp
  have d2': "drop (i + 1 + 1) fmt = r" using d2 by (simp add: numeral_2_eq_2)
  show ?thesis
  proof (cases "c = c_percent")
    case False
    have a: "(isprint c \<or> isspace c) \<and> isascii c" and b: "valid_format_from (c1 # r) n s"
      using ok False by simp_all
    have "body_control fmt (i, n, s) = Inr (i, n, s)"
      by (rule bc_plain) (simp_all only: f0 a False not_False_eq_True)
    then show ?thesis using b d1 by simp
  next
    case True
    note p = valid_format_from_percent [OF ok [unfolded True]]
    have fp: "fmt ! i = c_percent" using f0 True by simp
    show ?thesis
    proof (cases "is_int_conv c1")
      case True
      have "body_control fmt (i, n, s) = Inr (i + 1, n + 1, s)"
        by (rule bc_int [OF fp p(1)]) (simp only: f1 True)
      then show ?thesis using p(2) [OF True] d2' by simp
    next
      case nint: False
      show ?thesis
      proof (cases "c1 = c_l")
        case True
        obtain c2 r2 where r: "r = c2 # r2"
          and rest: "if is_int_conv c2 then valid_format_from r2 (n + 1) s
             else c2 = c_l \<and> (\<exists>c3 r3. r2 = c3 # r3 \<and> is_int_conv c3 \<and> valid_format_from r3 (n + 1) s)"
          using valid_format_from_l [OF ok [unfolded \<open>c = c_percent\<close> True]] by blast
        have fl: "fmt ! (i + 1) = c_l" using f1 True by simp
        have f2: "fmt ! (i + 2) = c2" using drop_nth [OF d, of 2] r by simp
        have d3: "drop (i + 2 + 1) fmt = r2" using drop_more [OF d, of 3] r by (simp add: numeral_3_eq_3)
        show ?thesis
        proof (cases "is_int_conv c2")
          case True
          have "body_control fmt (i, n, s) = Inr (i + 2, n + 1, s)"
            by (rule bc_lint [OF fp p(1) fl]) (simp only: f2 True)
          then show ?thesis using rest True d3 by simp
        next
          case False
          then obtain c3 r3 where c2: "c2 = c_l" and r2: "r2 = c3 # r3"
            and c3: "is_int_conv c3" and tl: "valid_format_from r3 (n + 1) s"
            using rest by auto
          have f2l: "fmt ! (i + 2) = c_l" using f2 c2 by simp
          have f3: "fmt ! (i + 2 + 1) = c3" using drop_nth [OF d, of 3] r r2 by (simp add: numeral_3_eq_3)
          have d4: "drop (i + 2 + 1 + 1) fmt = r3" using drop_more [OF d, of "Suc (Suc (Suc (Suc 0)))"] r r2 by simp
          have "body_control fmt (i, n, s) = Inr (i + 2 + 1, n + 1, s)"
            by (rule bc_llint [OF fp p(1) fl f2l]) (simp only: f3 c3)
          then show ?thesis using tl d4 by simp
        qed
      next
        case nl: False
        show ?thesis
        proof (cases "c1 = c_p")
          case True
          have fo: "follows_ok r" and tl: "valid_format_from r (n + 1) s"
            using p(4) [OF True] by simp_all
          obtain c2 r2 where r: "r = c2 # r2" and c2: "c2 = 0 \<or> isspace c2 \<or> ispunct c2"
            using follows_okD [OF fo] by blast
          have f2: "fmt ! (i + 2) = c2" using drop_nth [OF d, of 2] r by simp
          have fl: "fmt ! (i + 1) = c_p" using f1 True by simp
          have "body_control fmt (i, n, s) = Inr (i + 1, n + 1, s)"
            by (rule bc_p [OF fp p(1) fl]) (simp only: f2 c2)
          then show ?thesis using tl d2' by simp
        next
          case False
          have cs: "c1 = c_s" by (rule p(3) [OF nint nl False])
          have ns: "\<not> s" and fo: "follows_ok r" and tl: "valid_format_from r (n + 1) True"
            using p(5) [OF cs] by simp_all
          obtain c2 r2 where r: "r = c2 # r2" and c2: "c2 = 0 \<or> isspace c2 \<or> ispunct c2"
            using follows_okD [OF fo] by blast
          have f2: "fmt ! (i + 2) = c2" using drop_nth [OF d, of 2] r by simp
          have fl: "fmt ! (i + 1) = c_s" using f1 cs by simp
          have "body_control fmt (i, n, s) = Inr (i + 1, n + 1, True)"
            by (rule bc_s [OF fp p(1) fl ns]) (simp only: f2 c2)
          then show ?thesis using tl d2' by auto
        qed
      qed
    qed
  qed
qed


lemma valid_format_from_last: "valid_format_from xs n s \<Longrightarrow> last xs = 0"
  by (induction xs n s rule: valid_format_from.induct) (auto split: if_splits list.splits)

lemma valid_format_nul:
  assumes "valid_format fmt"
  shows "fmt ! (length fmt - 1) = 0"
proof -
  have ok: "valid_format_from fmt 0 False" using assms by (simp add: valid_format_def)
  have "fmt \<noteq> []" by (rule valid_format_from_nonempty [OF ok])
  then show ?thesis using valid_format_from_last [OF ok] by (simp add: last_conv_nth)
qed

lemma printk_loop_accepts:
  assumes "valid_format_from (drop (l_i st) fmt) (l_fmt_cnt st) (l_str_seen st)"
  shows "\<exists>st'. printk_loop mem frame fmt (length fmt - 1) st = Inr st'"
  using assms
proof (induction "length fmt - l_i st" arbitrary: st rule: less_induct)
  case less
  let ?i = "l_i st"
  note ok = less.prems
  have ne: "drop ?i fmt \<noteq> []" by (rule valid_format_from_nonempty [OF ok])
  then have ilt: "?i < length fmt" by simp
  note u = printk_loop.simps [of mem frame fmt "length fmt - 1" st]
  show ?case
  proof (cases "?i < length fmt - 1")
    case False
    then show ?thesis by (subst u) simp
  next
    case True
    then have "2 \<le> length (drop ?i fmt)" by simp
    then obtain c c1 r where d: "drop ?i fmt = c # c1 # r"
      by (cases "drop ?i fmt"; cases "tl (drop ?i fmt)") auto
    obtain i' n' s' where b: "body_control fmt (?i, l_fmt_cnt st, l_str_seen st) = Inr (i', n', s')"
      and le: "?i \<le> i'" and ok': "valid_format_from (drop (i' + 1) fmt) n' s'"
      using step_ok [OF d ok [unfolded d]] by blast
    have "map_sum id control (printk_body mem frame fmt st) = Inr (i', n', s')"
      using b by (simp add: printk_body_control control_def)
    then obtain st1 where b1: "printk_body mem frame fmt st = Inr st1"
      and c1: "control st1 = (i', n', s')"
      by (cases "printk_body mem frame fmt st") simp_all
    let ?st2 = "st1 \<lparr> l_i := l_i st1 + 1 \<rparr>"
    have f: "l_i ?st2 = i' + 1" "l_fmt_cnt ?st2 = n'" "l_str_seen ?st2 = s'"
      using c1 by (simp_all add: control_def)
    have ok2: "valid_format_from (drop (l_i ?st2) fmt) (l_fmt_cnt ?st2) (l_str_seen ?st2)"
      unfolding f by (rule ok')
    have m: "length fmt - l_i ?st2 < length fmt - ?i"
      unfolding f using le ilt by simp
    from less.hyps [OF m ok2]
    obtain st' where "printk_loop mem frame fmt (length fmt - 1) ?st2 = Inr st'" by blast
    then show ?thesis using True b1 by (subst u) simp
  qed
qed

lemma bpf_trace_printk_accepts:
  assumes "valid_format fmt"
  shows "\<exists>call. bpf_trace_printk mem frame fmt r3 r4 r5 = Inr call"
proof -
  let ?init = "\<lparr> l_i = 0, l_fmt_cnt = 0, l_mod = [0, 0, 0], l_str_seen = False,
       l_unsafe_addr = unsafe_addr_init frame,
       l_r3 = r3, l_r4 = r4, l_r5 = r5, l_buf = buf_init frame \<rparr>"
  have "valid_format_from (drop (l_i ?init) fmt) (l_fmt_cnt ?init) (l_str_seen ?init)"
    using assms by (simp add: valid_format_def)
  from printk_loop_accepts [OF this]
  obtain st' where "printk_loop mem frame fmt (length fmt - 1) ?init = Inr st'" by blast
  then show ?thesis
    using valid_format_nul [OF assms] by (simp add: bpf_trace_printk_def Let_def)
qed


section \<open>Properties of the stack map\<close>

text \<open>
  C10.  Every flags value with a bit set outside the skip-count mask, the
  user-stack bit, the fast-compare bit and the reuse-on-collision bit makes
  \<open>bpf_get_stackid\<close> fail with the invalid-argument error; the result does not depend
  on the trace capture or on the allocator, the map is returned as it was and no bucket is
  allocated or freed.
\<close>

theorem bpf_get_stackid_bad_flags:
  assumes "flags AND NOT (BPF_F_SKIP_FIELD_MASK OR BPF_F_USER_STACK OR
                          BPF_F_FAST_STACK_CMP OR BPF_F_REUSE_STACKID) \<noteq> 0"
  shows "bpf_get_stackid jhash2 get_perf_callchain kmalloc_ok smap flags = (Inl EINVAL, smap, [])"
  using assms by (simp add: bpf_get_stackid_def Let_def)

theorem bpf_get_stackid_bad_flags_witness:
  "(0x800 :: u64) AND NOT (BPF_F_SKIP_FIELD_MASK OR BPF_F_USER_STACK OR
                           BPF_F_FAST_STACK_CMP OR BPF_F_REUSE_STACKID) \<noteq> 0 \<and>
   bpf_get_stackid (\<lambda>k len initval. 0) (\<lambda>init_nr kernel user. None) True smap_empty4 0x800
     = (Inl EINVAL, smap_empty4, [])"
proof -
  have h: "(0x800 :: u64) AND NOT (BPF_F_SKIP_FIELD_MASK OR BPF_F_USER_STACK OR
                                   BPF_F_FAST_STACK_CMP OR BPF_F_REUSE_STACKID) \<noteq> 0"
    by (simp add: BPF_F_SKIP_FIELD_MASK_def BPF_F_USER_STACK_def
        BPF_F_FAST_STACK_CMP_def BPF_F_REUSE_STACKID_def)
  show ?thesis
    using h bpf_get_stackid_bad_flags [OF h] by simp
qed

text \<open>
  C9 (as stated: get-next-key fails with the Unsupported error).  The function returns
  \<^verbatim>\<open>-EINVAL\<close>, the invalid-argument code that \<open>bpf_get_stackid\<close> returns for bad
  flags, and not the operation-not-supported code \<^verbatim>\<open>-EOPNOTSUPP\<close>.
\<close>

theorem stack_map_get_next_key_counterexample:
  "stack_map_get_next_key smap_empty4 0 = Inl EINVAL \<and>
   stack_map_get_next_key smap_empty4 0 \<noteq> Inl EOPNOTSUPP"
  by (simp add: stack_map_get_next_key_def)

text \<open>
  C9 (amended).  The ordered-enumeration operation of the stack map fails
  unconditionally, for every map and every input key, with the invalid-argument error
  \<^verbatim>\<open>-EINVAL\<close>.
\<close>

theorem stack_map_get_next_key_einval:
  "stack_map_get_next_key smap key = Inl EINVAL"
  by (simp add: stack_map_get_next_key_def)

text \<open>
  C4 (as stated: an index at or beyond the bucket count fails with an out-of-range
  error, distinct from the not-found result of an empty bucket).  The lookup returns a
  pointer, and an out-of-range index gives the same \<^verbatim>\<open>NULL\<close> as an empty bucket in range:
  in a map of four empty buckets index 4 and index 0 give the same result.
\<close>

theorem stack_map_lookup_elem_counterexample:
  "4 \<ge> n_buckets smap_empty4 \<and> 0 < n_buckets smap_empty4 \<and>
   buckets smap_empty4 ! unat (0 :: u32) = None \<and>
   stack_map_lookup_elem smap_empty4 4 = stack_map_lookup_elem smap_empty4 0"
  by (simp add: stack_map_lookup_elem_def smap_empty4_def)

text \<open>
  C4 (amended).  For every index greater than or equal to the bucket count, and for
  every index in range whose bucket is empty, the lookup returns the same not-found result
  (\<^verbatim>\<open>NULL\<close>); for an occupied bucket it returns the whole frame buffer of the stored
  entry, padding included.
\<close>

theorem stack_map_lookup_elem_cases:
  "(key \<ge> n_buckets smap \<longrightarrow> stack_map_lookup_elem smap key = None) \<and>
   (key < n_buckets smap \<and> buckets smap ! unat key = None \<longrightarrow>
      stack_map_lookup_elem smap key = None) \<and>
   (\<forall>b. key < n_buckets smap \<and> buckets smap ! unat key = Some b \<longrightarrow>
      stack_map_lookup_elem smap key = Some (ip b))"
  by (auto simp add: stack_map_lookup_elem_def Let_def)

theorem stack_map_lookup_elem_cases_witness:
  "stack_map_lookup_elem smap_empty4 9 = None \<and>
   stack_map_lookup_elem smap_empty4 1 = None \<and>
   stack_map_lookup_elem
     (smap_empty4 \<lparr> buckets := [None, None, Some \<lparr> hash = 6, nr = 1, ip = [0xc0de, 0] \<rparr>, None] \<rparr>) 2
     = Some [0xc0de, 0]"
proof -
  let ?b = "\<lparr> hash = 6, nr = 1, ip = [0xc0de, 0 :: u64] \<rparr>"
  let ?m = "smap_empty4 \<lparr> buckets := [None, None, Some ?b, None] \<rparr>"
  have a: "(9 :: u32) \<ge> n_buckets smap_empty4"
    by (simp add: smap_empty4_def)
  have b: "(1 :: u32) < n_buckets smap_empty4 \<and> buckets smap_empty4 ! unat (1 :: u32) = None"
    by (simp add: smap_empty4_def)
  have c: "(2 :: u32) < n_buckets ?m \<and> buckets ?m ! unat (2 :: u32) = Some ?b"
    by (simp add: smap_empty4_def)
  from a b c show ?thesis
    using stack_map_lookup_elem_cases [where key = 9 and smap = smap_empty4]
          stack_map_lookup_elem_cases [where key = 1 and smap = smap_empty4]
          stack_map_lookup_elem_cases [where key = 2 and smap = ?m]
    by simp
qed




text \<open>
  C2 (as stated: on a mismatching occupied bucket, insert with reuse-on-collision
  succeeds).  The new entry is allocated before the swap, and when \<^verbatim>\<open>kmalloc\<close> returns
  \<^verbatim>\<open>NULL\<close> the call fails with \<^verbatim>\<open>-ENOMEM\<close>: here bucket 0 holds an entry of another
  hash, the flags request reuse, and the call fails, leaving the map as it was.
\<close>

theorem bpf_get_stackid_collision_counterexample:
  "captured_frames (callchain_ex [0x2008, 0x1008]) smap_one BPF_F_REUSE_STACKID = Some [0x2008, 0x1008] \<and>
   buckets smap_one ! unat (stack_id hash_ex smap_one [0x2008, 0x1008]) = Some bucket_ex \<and>
   stack_map_bucket.hash bucket_ex \<noteq> stack_hash hash_ex [0x2008, 0x1008] \<and>
   BPF_F_REUSE_STACKID AND BPF_F_REUSE_STACKID \<noteq> 0 \<and>
   bpf_get_stackid hash_ex (callchain_ex [0x2008, 0x1008]) False smap_one BPF_F_REUSE_STACKID
     = (Inl ENOMEM, smap_one, [])"
  by (simp add: bpf_get_stackid_def captured_frames_def stack_id_def stack_hash_def
      callchain_ex_def smap_one_def smap_empty4_def bucket_ex_def
      hash_ex_def PERF_MAX_STACK_DEPTH_def BPF_F_SKIP_FIELD_MASK_def BPF_F_USER_STACK_def
      BPF_F_FAST_STACK_CMP_def BPF_F_REUSE_STACKID_def Let_def)

text \<open>
  C2 (amended).  When the bucket of a newly captured trace is occupied and the trace
  does not match the occupant (different hash, or, with fast compare off, different depth or
  different frame bytes), then without reuse-on-collision the call fails with
  \<^verbatim>\<open>-EEXIST\<close> and leaves the map unchanged; with reuse-on-collision and a failed allocation
  it fails with \<^verbatim>\<open>-ENOMEM\<close> and leaves the map unchanged; with reuse-on-collision and a
  successful allocation it returns the bucket index, the one update of the bucket array puts
  the new entry in the place of the occupant, the old entry is handed to \<^verbatim>\<open>kfree_rcu\<close>,
  and a lookup of the index afterwards returns the new frames padded with zeros to the full
  value size.
\<close>

theorem bpf_get_stackid_collision:
  assumes wf: "smap_wf smap" and ok: "callchains_ok gpc"
    and fl: "flags_valid flags"
    and cap: "captured_frames gpc smap flags = Some frames"
    and occ: "buckets smap ! unat (stack_id jhash2 smap frames) = Some b"
    and mis: "stack_map_bucket.hash b \<noteq> stack_hash jhash2 frames \<or>
              (flags AND BPF_F_FAST_STACK_CMP = 0 \<and>
               (unat (nr b) \<noteq> length frames \<or> take (length frames) (ip b) \<noteq> frames))"
  shows "(flags AND BPF_F_REUSE_STACKID = 0 \<longrightarrow>
            bpf_get_stackid jhash2 gpc kmalloc_ok smap flags = (Inl EEXIST, smap, [])) \<and>
         (flags AND BPF_F_REUSE_STACKID \<noteq> 0 \<and> \<not> kmalloc_ok \<longrightarrow>
            bpf_get_stackid jhash2 gpc kmalloc_ok smap flags = (Inl ENOMEM, smap, [])) \<and>
         (flags AND BPF_F_REUSE_STACKID \<noteq> 0 \<and> kmalloc_ok \<longrightarrow>
            (\<exists>smap'. bpf_get_stackid jhash2 gpc kmalloc_ok smap flags =
                 (Inr (stack_id jhash2 smap frames), smap',
                  [Kmalloc (new_entry jhash2 smap frames), Kfree_rcu b]) \<and>
               buckets smap' = (buckets smap)[unat (stack_id jhash2 smap frames) :=
                                                Some (new_entry jhash2 smap frames)] \<and>
               stack_map_lookup_elem smap' (stack_id jhash2 smap frames) = Some (padded smap frames) \<and>
               length (padded smap frames) = unat (value_size smap) div 8))"
proof -
  let ?i = "stack_id jhash2 smap frames"
  from wf have nb: "n_buckets smap \<noteq> 0" and lb: "length (buckets smap) = unat (n_buckets smap)"
    by (simp_all add: smap_wf_def)
  have i_lt: "unat ?i < length (buckets smap)"
    unfolding stack_id_def using nb lb by (rule id_in_range)
  have i_n: "?i < n_buckets smap"
    using i_lt lb by (simp add: word_less_nat_alt)
  have nm: "\<not> entry_matches jhash2 flags b frames"
    using mis by (auto simp add: entry_matches_def)
  note ch = bpf_get_stackid_captured [OF wf ok fl cap]
  have r: "bpf_get_stackid jhash2 gpc kmalloc_ok smap flags =
     (if flags AND BPF_F_REUSE_STACKID = 0 then (Inl EEXIST, smap, [])
      else if \<not> kmalloc_ok then (Inl ENOMEM, smap, [])
      else (Inr ?i, smap \<lparr> buckets := (buckets smap)[unat ?i := Some (new_entry jhash2 smap frames)] \<rparr>,
            [Kmalloc (new_entry jhash2 smap frames), Kfree_rcu b]))"
    using ch(1) [of jhash2 kmalloc_ok] occ nm by (simp add: Let_def)
  have look: "stack_map_lookup_elem
       (smap \<lparr> buckets := (buckets smap)[unat ?i := Some (new_entry jhash2 smap frames)] \<rparr>) ?i
       = Some (padded smap frames)"
    using i_lt i_n by (simp add: stack_map_lookup_elem_def Let_def new_entry_def)
  have lp: "length (padded smap frames) = unat (value_size smap) div 8"
    using ch(2) by (simp add: padded_def)
  show ?thesis
  proof (intro conjI impI)
    assume "flags AND BPF_F_REUSE_STACKID = 0"
    then show "bpf_get_stackid jhash2 gpc kmalloc_ok smap flags = (Inl EEXIST, smap, [])"
      using r by simp
  next
    assume "flags AND BPF_F_REUSE_STACKID \<noteq> 0 \<and> \<not> kmalloc_ok"
    then show "bpf_get_stackid jhash2 gpc kmalloc_ok smap flags = (Inl ENOMEM, smap, [])"
      using r by simp
  next
    assume "flags AND BPF_F_REUSE_STACKID \<noteq> 0 \<and> kmalloc_ok"
    then have "bpf_get_stackid jhash2 gpc kmalloc_ok smap flags =
        (Inr ?i, smap \<lparr> buckets := (buckets smap)[unat ?i := Some (new_entry jhash2 smap frames)] \<rparr>,
         [Kmalloc (new_entry jhash2 smap frames), Kfree_rcu b])"
      using r by simp
    then show "\<exists>smap'. bpf_get_stackid jhash2 gpc kmalloc_ok smap flags =
                 (Inr ?i, smap', [Kmalloc (new_entry jhash2 smap frames), Kfree_rcu b]) \<and>
               buckets smap' = (buckets smap)[unat ?i := Some (new_entry jhash2 smap frames)] \<and>
               stack_map_lookup_elem smap' ?i = Some (padded smap frames) \<and>
               length (padded smap frames) = unat (value_size smap) div 8"
      using look lp by simp
  qed
qed

theorem bpf_get_stackid_collision_witness:
  "smap_wf smap_one \<and> callchains_ok (callchain_ex [0x2008, 0x1008]) \<and>
   flags_valid BPF_F_REUSE_STACKID \<and> flags_valid 0 \<and>
   captured_frames (callchain_ex [0x2008, 0x1008]) smap_one BPF_F_REUSE_STACKID = Some [0x2008, 0x1008] \<and>
   captured_frames (callchain_ex [0x2008, 0x1008]) smap_one 0 = Some [0x2008, 0x1008] \<and>
   buckets smap_one ! unat (stack_id hash_ex smap_one [0x2008, 0x1008]) = Some bucket_ex \<and>
   stack_map_bucket.hash bucket_ex \<noteq> stack_hash hash_ex [0x2008, 0x1008] \<and>
   bpf_get_stackid hash_ex (callchain_ex [0x2008, 0x1008]) True smap_one 0
     = (Inl EEXIST, smap_one, []) \<and>
   bpf_get_stackid hash_ex (callchain_ex [0x2008, 0x1008]) False smap_one BPF_F_REUSE_STACKID
     = (Inl ENOMEM, smap_one, []) \<and>
   (\<exists>smap'. bpf_get_stackid hash_ex (callchain_ex [0x2008, 0x1008]) True smap_one BPF_F_REUSE_STACKID
       = (Inr 0, smap', [Kmalloc \<lparr> hash = 0x3014, nr = 2, ip = [0x2008, 0x1008] \<rparr>,
                         Kfree_rcu bucket_ex]) \<and>
      buckets smap' = [Some \<lparr> hash = 0x3014, nr = 2, ip = [0x2008, 0x1008] \<rparr>, None, None, None] \<and>
      stack_map_lookup_elem smap' 0 = Some [0x2008, 0x1008])"
proof -
  let ?fs = "[0x2008, 0x1008 :: u64]"
  have wf: "smap_wf smap_one"
    by (simp add: smap_wf_def smap_one_def smap_empty4_def PERF_MAX_STACK_DEPTH_def)
  have ok: "callchains_ok (callchain_ex ?fs)"
    by (rule callchains_ok_ex)
  have fl: "flags_valid BPF_F_REUSE_STACKID" and fl0: "flags_valid 0"
    by (simp_all add: flags_valid_def BPF_F_SKIP_FIELD_MASK_def BPF_F_USER_STACK_def
        BPF_F_FAST_STACK_CMP_def BPF_F_REUSE_STACKID_def)
  have cap: "captured_frames (callchain_ex ?fs) smap_one BPF_F_REUSE_STACKID = Some ?fs"
    and cap0: "captured_frames (callchain_ex ?fs) smap_one 0 = Some ?fs"
    by (simp_all add: captured_frames_def callchain_ex_def smap_one_def smap_empty4_def
        PERF_MAX_STACK_DEPTH_def BPF_F_SKIP_FIELD_MASK_def BPF_F_USER_STACK_def
        BPF_F_REUSE_STACKID_def Let_def)
  have sid: "stack_id hash_ex smap_one ?fs = 0" and sh: "stack_hash hash_ex ?fs = 0x3014"
    by (simp_all add: stack_id_def stack_hash_def hash_ex_def smap_one_def smap_empty4_def)
  have occ: "buckets smap_one ! unat (stack_id hash_ex smap_one ?fs) = Some bucket_ex"
    unfolding sid by (simp add: smap_one_def)
  have mis: "stack_map_bucket.hash bucket_ex \<noteq> stack_hash hash_ex ?fs"
    unfolding sh by (simp add: bucket_ex_def)
  have mis': "stack_map_bucket.hash bucket_ex \<noteq> stack_hash hash_ex ?fs \<or>
      (f AND BPF_F_FAST_STACK_CMP = 0 \<and>
       (unat (nr bucket_ex) \<noteq> length ?fs \<or> take (length ?fs) (ip bucket_ex) \<noteq> ?fs))" for f :: u64
    using mis by simp
  have ne: "new_entry hash_ex smap_one ?fs = \<lparr> hash = 0x3014, nr = 2, ip = ?fs \<rparr>"
    by (simp add: new_entry_def padded_def sh smap_one_def smap_empty4_def)
  have pd: "padded smap_one ?fs = ?fs"
    by (simp add: padded_def smap_one_def smap_empty4_def)
  have nz: "BPF_F_REUSE_STACKID AND BPF_F_REUSE_STACKID \<noteq> 0"
    by (simp add: BPF_F_REUSE_STACKID_def)
  have upd: "(buckets smap_one)[unat (0 :: u32) := Some \<lparr> hash = 0x3014, nr = 2, ip = ?fs \<rparr>]
      = [Some \<lparr> hash = 0x3014, nr = 2, ip = ?fs \<rparr>, None, None, None]"
    by (simp add: smap_one_def smap_empty4_def)
  show ?thesis
    using wf ok fl fl0 cap cap0 occ mis nz
      bpf_get_stackid_collision [OF wf ok fl0 cap0 occ mis', of True]
      bpf_get_stackid_collision [OF wf ok fl cap occ mis', of False]
      bpf_get_stackid_collision [OF wf ok fl cap occ mis', of True]
    unfolding ne pd sid upd
    by auto
qed

text \<open>
  C6 (as stated: creation fails with the invalid-argument error whenever an attribute
  check is violated).  The capability check comes first: a caller without
  \<^verbatim>\<open>CAP_SYS_ADMIN\<close> that asks for zero entries gets \<^verbatim>\<open>-EPERM\<close>, not \<^verbatim>\<open>-EINVAL\<close>.
\<close>

theorem stack_map_alloc_counterexample:
  "attr_bad (attr_ex 4 16 0) \<and>
   stack_map_alloc (env_ok \<lparr> capable_sys_admin := False \<rparr>) 88 (attr_ex 4 16 0) = Inl EPERM \<and>
   stack_map_alloc (env_ok \<lparr> capable_sys_admin := False \<rparr>) 88 (attr_ex 4 16 0) \<noteq> Inl EINVAL"
  by (simp add: stack_map_alloc_def attr_bad_def attr_ex_def env_ok_def)

text \<open>
  C6 (amended).  Creation succeeds only for a caller with \<^verbatim>\<open>CAP_SYS_ADMIN\<close> and only
  when \<open>max_entries > 0\<close>, the key size is 4, the value size is at least 8 and a multiple of
  8, and the value size divided by 8 is at most the frame-depth ceiling; on success the bucket
  count is the least power of two at or above \<open>max_entries\<close>, every bucket is empty and
  the total cost is below the limit.  For a caller with the capability, a violated
  attribute check fails with \<^verbatim>\<open>-EINVAL\<close>; with valid attributes, a bucket table at or
  above the limit fails with \<^verbatim>\<open>-E2BIG\<close>, and so does a total footprint at or above the
  limit once the table itself could be allocated.  A caller without the capability fails
  with \<^verbatim>\<open>-EPERM\<close> whatever the attributes.
\<close>

theorem stack_map_alloc_checks:
  "(stack_map_alloc env sz attr = Inr smap \<longrightarrow>
      capable_sys_admin env \<and> attr_max_entries attr \<noteq> 0 \<and> attr_key_size attr = 4 \<and>
      8 \<le> attr_value_size attr \<and> attr_value_size attr mod 8 = 0 \<and>
      attr_value_size attr div 8 \<le> PERF_MAX_STACK_DEPTH \<and>
      (\<exists>k. unat (n_buckets smap) = 2 ^ k) \<and>
      unat (attr_max_entries attr) \<le> unat (n_buckets smap) \<and>
      unat (n_buckets smap) < 2 * unat (attr_max_entries attr) \<and>
      total_cost sz attr < cost_limit \<and>
      buckets smap = replicate (unat (n_buckets smap)) None \<and> smap_wf smap) \<and>
   (capable_sys_admin env \<and> attr_bad attr \<longrightarrow> stack_map_alloc env sz attr = Inl EINVAL) \<and>
   (capable_sys_admin env \<and> \<not> attr_bad attr \<and> cost_limit \<le> table_cost sz attr \<longrightarrow>
      stack_map_alloc env sz attr = Inl E2BIG) \<and>
   (capable_sys_admin env \<and> \<not> attr_bad attr \<and> (kzalloc_ok env \<or> vzalloc_ok env) \<and>
    cost_limit \<le> total_cost sz attr \<longrightarrow>
      stack_map_alloc env sz attr = Inl E2BIG) \<and>
   (\<not> capable_sys_admin env \<longrightarrow> stack_map_alloc env sz attr = Inl EPERM)"
proof (intro conjI impI)
  assume ok: "stack_map_alloc env sz attr = Inr smap"
  let ?n = "roundup_pow_of_two (ucast (attr_max_entries attr))"
  from ok have cap: "capable_sys_admin env" and nb: "\<not> attr_bad attr"
    and c1: "table_cost sz attr < cost_limit" and c2: "total_cost sz attr < cost_limit"
    and sm: "smap = \<lparr> map_type = attr_map_type attr,
                     key_size = attr_key_size attr, value_size = attr_value_size attr,
                     max_entries = attr_max_entries attr,
                     pages = ucast (drop_bit PAGE_SHIFT (round_up (total_cost sz attr) PAGE_SIZE)),
                     n_buckets = ucast ?n, buckets = replicate (unat ?n) None \<rparr>"
    unfolding stack_map_alloc_unfold
    by (auto split: if_splits option.splits simp add: not_le)
  from nb have me: "attr_max_entries attr \<noteq> 0" and ks: "attr_key_size attr = 4"
    and v8: "8 \<le> attr_value_size attr" and vm: "attr_value_size attr mod 8 = 0"
    and vd: "attr_value_size attr div 8 \<le> PERF_MAX_STACK_DEPTH"
    by (simp_all add: attr_bad_def not_less)
  note r = roundup_pow_of_two_u32 [OF me]
  have small: "unat ?n < 2 ^ 29" using me c1 by (rule table_cost_small)
  have un: "unat (n_buckets smap) = unat ?n"
    using small by (simp add: sm unsigned_ucast_eq take_bit_nat_eq_self)
  have pos: "0 < unat ?n" using r(1) by simp
  show "capable_sys_admin env" by (rule cap)
  show "attr_max_entries attr \<noteq> 0" by (rule me)
  show "attr_key_size attr = 4" by (rule ks)
  show "8 \<le> attr_value_size attr" by (rule v8)
  show "attr_value_size attr mod 8 = 0" by (rule vm)
  show "attr_value_size attr div 8 \<le> PERF_MAX_STACK_DEPTH" by (rule vd)
  show "\<exists>k. unat (n_buckets smap) = 2 ^ k" using un r(1) by auto
  show "unat (attr_max_entries attr) \<le> unat (n_buckets smap)" using un r(1) r(3) by simp
  show "unat (n_buckets smap) < 2 * unat (attr_max_entries attr)" using un r(1) r(4) by simp
  show "total_cost sz attr < cost_limit" by (rule c2)
  show "buckets smap = replicate (unat (n_buckets smap)) None" unfolding un by (simp add: sm)
  have "n_buckets smap \<noteq> 0" using un pos by (metis unat_eq_zero less_numeral_extra(3))
  moreover have "length (buckets smap) = unat (n_buckets smap)" unfolding un by (simp add: sm)
  moreover have "value_size smap div 8 \<le> PERF_MAX_STACK_DEPTH" using vd by (simp add: sm)
  ultimately show "smap_wf smap" by (simp add: smap_wf_def)
next
  assume "capable_sys_admin env \<and> attr_bad attr"
  then show "stack_map_alloc env sz attr = Inl EINVAL"
    unfolding stack_map_alloc_unfold by simp
next
  assume "capable_sys_admin env \<and> \<not> attr_bad attr \<and> cost_limit \<le> table_cost sz attr"
  then show "stack_map_alloc env sz attr = Inl E2BIG"
    unfolding stack_map_alloc_unfold by simp
next
  assume "capable_sys_admin env \<and> \<not> attr_bad attr \<and> (kzalloc_ok env \<or> vzalloc_ok env) \<and>
    cost_limit \<le> total_cost sz attr"
  then show "stack_map_alloc env sz attr = Inl E2BIG"
    unfolding stack_map_alloc_unfold by auto
next
  assume "\<not> capable_sys_admin env"
  then show "stack_map_alloc env sz attr = Inl EPERM"
    unfolding stack_map_alloc_unfold by simp
qed


theorem stack_map_alloc_checks_witness:
  "stack_map_alloc env_ok 88 (attr_ex 4 16 3) = Inr (smap_empty4 \<lparr> max_entries := 3 \<rparr>) \<and>
   unat (n_buckets (smap_empty4 \<lparr> max_entries := 3 \<rparr>)) = 4 \<and>
   smap_wf (smap_empty4 \<lparr> max_entries := 3 \<rparr>) \<and>
   capable_sys_admin env_ok \<and> attr_bad (attr_ex 8 16 3) \<and>
   stack_map_alloc env_ok 88 (attr_ex 8 16 3) = Inl EINVAL \<and>
   \<not> attr_bad (attr_ex 4 16 0x20000000) \<and> cost_limit \<le> table_cost 88 (attr_ex 4 16 0x20000000) \<and>
   stack_map_alloc env_ok 88 (attr_ex 4 16 0x20000000) = Inl E2BIG \<and>
   \<not> attr_bad (attr_ex 4 1016 0x400000) \<and> (kzalloc_ok env_ok \<or> vzalloc_ok env_ok) \<and>
   cost_limit \<le> total_cost 88 (attr_ex 4 1016 0x400000) \<and>
   stack_map_alloc env_ok 88 (attr_ex 4 1016 0x400000) = Inl E2BIG \<and>
   \<not> capable_sys_admin (env_ok \<lparr> capable_sys_admin := False \<rparr>) \<and>
   stack_map_alloc (env_ok \<lparr> capable_sys_admin := False \<rparr>) 88 (attr_ex 4 16 3) = Inl EPERM"
proof -
  have a: "stack_map_alloc env_ok 88 (attr_ex 4 16 3) = Inr (smap_empty4 \<lparr> max_entries := 3 \<rparr>)"
    by (simp add: stack_map_alloc_def attr_ex_def env_ok_def smap_empty4_def Let_def
        roundup_pow_of_two_def fls_long_def round_up_def PAGE_SIZE_def PAGE_SHIFT_def U32_MAX_def
        PERF_MAX_STACK_DEPTH_def replicate4)
  have b: "capable_sys_admin env_ok \<and> attr_bad (attr_ex 8 16 3)"
    by (simp add: env_ok_def attr_bad_def attr_ex_def)
  have c: "capable_sys_admin env_ok \<and> \<not> attr_bad (attr_ex 4 16 0x20000000) \<and>
           cost_limit \<le> table_cost 88 (attr_ex 4 16 0x20000000)"
    by (simp add: env_ok_def attr_bad_def cost_limit_def table_cost_def attr_ex_def
        roundup_pow_of_two_def fls_long_def PAGE_SIZE_def PAGE_SHIFT_def U32_MAX_def
        PERF_MAX_STACK_DEPTH_def)
  have d: "capable_sys_admin env_ok \<and> \<not> attr_bad (attr_ex 4 1016 0x400000) \<and>
           (kzalloc_ok env_ok \<or> vzalloc_ok env_ok) \<and>
           cost_limit \<le> total_cost 88 (attr_ex 4 1016 0x400000)"
    by (simp add: env_ok_def attr_bad_def cost_limit_def table_cost_def total_cost_def attr_ex_def
        roundup_pow_of_two_def fls_long_def PAGE_SIZE_def PAGE_SHIFT_def U32_MAX_def
        PERF_MAX_STACK_DEPTH_def)
  have e: "\<not> capable_sys_admin (env_ok \<lparr> capable_sys_admin := False \<rparr>)"
    by simp
  note t_ok = stack_map_alloc_checks [where env = env_ok and sz = 88]
  note t_np = stack_map_alloc_checks [where env = "env_ok \<lparr> capable_sys_admin := False \<rparr>"
      and sz = 88 and attr = "attr_ex 4 16 3"]
  have f1: "smap_wf (smap_empty4 \<lparr> max_entries := 3 \<rparr>)"
    using t_ok [where attr = "attr_ex 4 16 3" and smap = "smap_empty4 \<lparr> max_entries := 3 \<rparr>",
        THEN conjunct1, THEN mp, OF a] by (elim conjE)
  have f2: "stack_map_alloc env_ok 88 (attr_ex 8 16 3) = Inl EINVAL"
    using t_ok [where attr = "attr_ex 8 16 3", THEN conjunct2, THEN conjunct1, THEN mp, OF b] .
  have f3: "stack_map_alloc env_ok 88 (attr_ex 4 16 0x20000000) = Inl E2BIG"
    using t_ok [where attr = "attr_ex 4 16 0x20000000", THEN conjunct2, THEN conjunct2,
        THEN conjunct1, THEN mp, OF c] .
  have f4: "stack_map_alloc env_ok 88 (attr_ex 4 1016 0x400000) = Inl E2BIG"
    using t_ok [where attr = "attr_ex 4 1016 0x400000", THEN conjunct2, THEN conjunct2,
        THEN conjunct2, THEN conjunct1, THEN mp, OF d] .
  have f5: "stack_map_alloc (env_ok \<lparr> capable_sys_admin := False \<rparr>) 88 (attr_ex 4 16 3) = Inl EPERM"
    using t_np [THEN conjunct2, THEN conjunct2, THEN conjunct2, THEN conjunct2, THEN mp, OF e] .
  have g: "unat (n_buckets (smap_empty4 \<lparr> max_entries := 3 \<rparr>)) = 4"
    by (simp add: smap_empty4_def)
  from a b c d e f1 f2 f3 f4 f5 g show ?thesis
    by (intro conjI) (elim conjE, assumption)+
qed

section \<open>Properties of the dispatcher and of the event output\<close>

text \<open>
  C8 (as stated: from NMI context the dispatcher returns the inert ``event not
  recorded'' result).  The value returned is 1, which the kprobe handler reads as ``store
  kprobe event into ring buffer''; the ``filtered out'' value is 0.
\<close>

theorem trace_call_bpf_nmi_counterexample:
  "fst (trace_call_bpf run_ex True cpu_idle () ()) = 1 \<and>
   kprobe_interpretation (fst (trace_call_bpf run_ex True cpu_idle () ())) = Store_event \<and>
   kprobe_interpretation (fst (trace_call_bpf run_ex True cpu_idle () ())) \<noteq> Filtered_out"
  by (simp add: trace_call_bpf_def kprobe_interpretation_def)

text \<open>
  C8 (amended).  When the dispatcher is invoked from NMI context it returns at once:
  the CPU state, the guard included, is untouched, no attached program is run, and the
  value returned is 1, which the caller reads as ``store the event'', not as ``filtered''.
\<close>

theorem trace_call_bpf_nmi:
  "trace_call_bpf run_array True s prog_array ctx = (1, s, []) \<and>
   kprobe_interpretation 1 = Store_event"
  by (simp add: trace_call_bpf_def kprobe_interpretation_def)

text \<open>
  C3 (as stated: with the guard already active the dispatcher reports ``filtered'',
  returning 0).  In NMI context the dispatcher returns 1 before it looks at the guard, also
  when a program is already running on the CPU.
\<close>

theorem trace_call_bpf_guard_counterexample:
  "bpf_prog_active cpu_busy \<noteq> 0 \<and>
   trace_call_bpf run_ex True cpu_busy () () = (1, cpu_busy, []) \<and>
   fst (trace_call_bpf run_ex True cpu_busy () ()) \<noteq> 0"
  by (simp add: trace_call_bpf_def cpu_busy_def)

text \<open>
  C3 (amended).  Outside NMI context, if the guard of the CPU is already active when
  the dispatcher fires, the dispatcher runs no attached program and returns 0, the
  ``filtered'' outcome.  On every exit path (the NMI exit, the filtered path, and after the
  attached programs ran, whatever they returned) the CPU state at return, the guard
  included, equals the state at entry.
\<close>

theorem trace_call_bpf_guard:
  "(\<not> in_nmi \<and> bpf_prog_active s \<noteq> 0 \<longrightarrow>
      trace_call_bpf run_array in_nmi s prog_array ctx = (0, s, []) \<and>
      kprobe_interpretation 0 = Filtered_out) \<and>
   fst (snd (trace_call_bpf run_array in_nmi s prog_array ctx)) = s"
  by (simp add: trace_call_bpf_def kprobe_interpretation_def Let_def split: prod.splits)

theorem trace_call_bpf_guard_witness:
  "bpf_prog_active cpu_busy \<noteq> 0 \<and>
   trace_call_bpf run_ex False cpu_busy () () = (0, cpu_busy, []) \<and>
   trace_call_bpf run_ex False cpu_idle () () = (1, cpu_idle, [''p1'', ''p2''])"
proof -
  have a: "\<not> False \<and> bpf_prog_active cpu_busy \<noteq> 0"
    by (simp add: cpu_busy_def)
  have b: "trace_call_bpf run_ex False cpu_busy () () = (0, cpu_busy, [])"
    using trace_call_bpf_guard [where in_nmi = False and s = cpu_busy and run_array = run_ex
        and prog_array = "()" and ctx = "()", THEN conjunct1, THEN mp, OF a]
    by (rule conjunct1)
  have c: "trace_call_bpf run_ex False cpu_idle () () = (1, cpu_idle, [''p1'', ''p2''])"
    by (simp add: trace_call_bpf_def cpu_idle_def run_ex_def)
  from a b c show ?thesis by simp
qed

text \<open>
  C5 (as stated: a target of the wrong kind fails with Unsupported, a target owned by
  another CPU with a separate wrong-context error).  For the hardware event in slot 3 the
  helper returns \<^verbatim>\<open>-EINVAL\<close>, the invalid-argument code, and not the operation-not-supported
  code; \<^verbatim>\<open>-EOPNOTSUPP\<close> is what it returns for the raw-output event in slot 2 when
  called on another CPU.
\<close>

theorem bpf_perf_event_output_counterexample:
  "bpf_perf_event_output array_ex 0 3 [1, 2, 3] = (Inl EINVAL, []) \<and>
   fst (bpf_perf_event_output array_ex 0 3 [1, 2, 3]) \<noteq> Inl EOPNOTSUPP \<and>
   bpf_perf_event_output array_ex 5 2 [1, 2, 3] = (Inl EOPNOTSUPP, [])"
  by (simp add: bpf_perf_event_output_def array_ex_def PERF_TYPE_SOFTWARE_def
      PERF_COUNT_SW_BPF_OUTPUT_def)

text \<open>
  C5 (amended).  With the index inside the array, the helper fails with
  \<^verbatim>\<open>-ENOENT\<close> when the slot is unoccupied; otherwise with \<^verbatim>\<open>-EINVAL\<close> when the event
  is not of the raw-output kind; otherwise with \<^verbatim>\<open>-EOPNOTSUPP\<close> when the event is
  owned by another CPU than the current one; an index outside the array fails with
  \<^verbatim>\<open>-E2BIG\<close>.  In all these cases nothing is handed to the sink.  When every check
  passes the payload is handed to the sink once and the helper returns 0; and whenever
  something is handed to the sink, every check has passed.
\<close>

theorem bpf_perf_event_output_cases:
  "(index \<ge> ucast (arr_max_entries array) \<longrightarrow>
      bpf_perf_event_output array cpu index data = (Inl E2BIG, [])) \<and>
   (index < ucast (arr_max_entries array) \<and> ptrs array ! unat index = None \<longrightarrow>
      bpf_perf_event_output array cpu index data = (Inl ENOENT, [])) \<and>
   (\<forall>event. index < ucast (arr_max_entries array) \<and> ptrs array ! unat index = Some event \<longrightarrow>
      ((attr_type event \<noteq> PERF_TYPE_SOFTWARE \<or> attr_config event \<noteq> PERF_COUNT_SW_BPF_OUTPUT) \<longrightarrow>
         bpf_perf_event_output array cpu index data = (Inl EINVAL, [])) \<and>
      (attr_type event = PERF_TYPE_SOFTWARE \<and> attr_config event = PERF_COUNT_SW_BPF_OUTPUT \<and>
       oncpu event \<noteq> cpu \<longrightarrow>
         bpf_perf_event_output array cpu index data = (Inl EOPNOTSUPP, [])) \<and>
      (attr_type event = PERF_TYPE_SOFTWARE \<and> attr_config event = PERF_COUNT_SW_BPF_OUTPUT \<and>
       oncpu event = cpu \<longrightarrow>
         bpf_perf_event_output array cpu index data = (Inr 0, [(event, data)]))) \<and>
   (snd (bpf_perf_event_output array cpu index data) \<noteq> [] \<longrightarrow>
      (\<exists>event. index < ucast (arr_max_entries array) \<and> ptrs array ! unat index = Some event \<and>
         attr_type event = PERF_TYPE_SOFTWARE \<and> attr_config event = PERF_COUNT_SW_BPF_OUTPUT \<and>
         oncpu event = cpu \<and>
         bpf_perf_event_output array cpu index data = (Inr 0, [(event, data)])))"
  by (auto simp add: bpf_perf_event_output_def not_le split: option.splits)

theorem bpf_perf_event_output_cases_witness:
  "bpf_perf_event_output array_ex 0 7 [1, 2, 3] = (Inl E2BIG, []) \<and>
   bpf_perf_event_output array_ex 0 0 [1, 2, 3] = (Inl ENOENT, []) \<and>
   bpf_perf_event_output array_ex 0 3 [1, 2, 3] = (Inl EINVAL, []) \<and>
   bpf_perf_event_output array_ex 5 2 [1, 2, 3] = (Inl EOPNOTSUPP, []) \<and>
   bpf_perf_event_output array_ex 0 2 [1, 2, 3]
     = (Inr 0, [(\<lparr> attr_type = 1, attr_config = 10, oncpu = 0 \<rparr>, [1, 2, 3])])"
proof -
  let ?raw = "\<lparr> attr_type = 1, attr_config = 10, oncpu = (0 :: 32 word) \<rparr>"
  let ?hw = "\<lparr> attr_type = 0, attr_config = 10, oncpu = (0 :: 32 word) \<rparr>"
  note t = bpf_perf_event_output_cases [where array = array_ex and data = "[1, 2, 3]"]
  have h1: "(7 :: u64) \<ge> ucast (arr_max_entries array_ex)"
    by (simp add: array_ex_def)
  have h2: "(0 :: u64) < ucast (arr_max_entries array_ex) \<and> ptrs array_ex ! unat (0 :: u64) = None"
    by (simp add: array_ex_def)
  have h3: "(3 :: u64) < ucast (arr_max_entries array_ex) \<and> ptrs array_ex ! unat (3 :: u64) = Some ?hw"
    by (simp add: array_ex_def)
  have h3': "attr_type ?hw \<noteq> PERF_TYPE_SOFTWARE \<or> attr_config ?hw \<noteq> PERF_COUNT_SW_BPF_OUTPUT"
    by (simp add: PERF_TYPE_SOFTWARE_def)
  have h4: "(2 :: u64) < ucast (arr_max_entries array_ex) \<and> ptrs array_ex ! unat (2 :: u64) = Some ?raw"
    by (simp add: array_ex_def)
  have h4': "attr_type ?raw = PERF_TYPE_SOFTWARE \<and> attr_config ?raw = PERF_COUNT_SW_BPF_OUTPUT \<and>
             oncpu ?raw \<noteq> 5"
    by (simp add: PERF_TYPE_SOFTWARE_def PERF_COUNT_SW_BPF_OUTPUT_def)
  have h5': "attr_type ?raw = PERF_TYPE_SOFTWARE \<and> attr_config ?raw = PERF_COUNT_SW_BPF_OUTPUT \<and>
             oncpu ?raw = 0"
    by (simp add: PERF_TYPE_SOFTWARE_def PERF_COUNT_SW_BPF_OUTPUT_def)
  have r1: "bpf_perf_event_output array_ex 0 7 [1, 2, 3] = (Inl E2BIG, [])"
    using t [where cpu = 0 and index = 7, THEN conjunct1, THEN mp, OF h1] .
  have r2: "bpf_perf_event_output array_ex 0 0 [1, 2, 3] = (Inl ENOENT, [])"
    using t [where cpu = 0 and index = 0, THEN conjunct2, THEN conjunct1, THEN mp, OF h2] .
  have r3: "bpf_perf_event_output array_ex 0 3 [1, 2, 3] = (Inl EINVAL, [])"
    using t [where cpu = 0 and index = 3, THEN conjunct2, THEN conjunct2, THEN conjunct1,
        THEN spec, THEN mp, OF h3, THEN conjunct1, THEN mp, OF h3'] .
  have r4: "bpf_perf_event_output array_ex 5 2 [1, 2, 3] = (Inl EOPNOTSUPP, [])"
    using t [where cpu = 5 and index = 2, THEN conjunct2, THEN conjunct2, THEN conjunct1,
        THEN spec, THEN mp, OF h4, THEN conjunct2, THEN conjunct1, THEN mp, OF h4'] .
  have r5: "bpf_perf_event_output array_ex 0 2 [1, 2, 3] = (Inr 0, [(?raw, [1, 2, 3])])"
    using t [where cpu = 0 and index = 2, THEN conjunct2, THEN conjunct2, THEN conjunct1,
        THEN spec, THEN mp, OF h4, THEN conjunct2, THEN conjunct2, THEN mp, OF h5'] .
  from r1 r2 r3 r4 r5 show ?thesis by simp
qed

section \<open>Properties of the formatted output\<close>

text \<open>
  C7 (as stated: when the read of the string fails, the rendered string is empty).  The
  read is best effort and keeps what it copied before the fault: here the format is
  \<^verbatim>\<open>"%d %s"\<close>, the string argument points to the bytes \<^verbatim>\<open>"hi"\<close> followed by an address
  that cannot be read, the read fails with \<^verbatim>\<open>-EFAULT\<close>, and the call succeeds with a buffer
  that holds the string \<^verbatim>\<open>"hi"\<close>, not the empty string.
\<close>

theorem bpf_trace_printk_string_arg_counterexample:
  "valid_format fmt_ex \<and>
   fst (strncpy_from_unsafe mem_fault ((buf_init frame_ex)[0 := 0]) 0x1000 64) = Inl EFAULT \<and>
   bpf_trace_printk mem_fault frame_ex fmt_ex 7 0x1000 9
     = Inr \<lparr> pk_fmt = fmt_ex, pk_args = [7, buf_addr frame_ex, 9],
             pk_buf = [0x68, 0x69, 0] @ replicate 61 0xaa \<rparr> \<and>
   c_string ([0x68, 0x69, 0] @ replicate 61 0xaa) = [0x68, 0x69]"
  by code_simp

text \<open>
  C7 (amended).  Take a valid format (\<open>valid_format\<close>) that has a \<^verbatim>\<open>%s\<close> at position \<open>j\<close>.
  Then for every memory, stack frame and arguments the call succeeds; the argument of that
  specifier (the one with as many \<^verbatim>\<open>'%'\<close> before it) is passed as the address of the local
  buffer, not as the address the program gave; the buffer holds what the bounded
  fault-tolerant read of 64 bytes from the program's address left in it, after its first byte
  was cleared; when that read fails, the string in the buffer is the bytes that were read
  before the fault; and it is the empty string when the first byte cannot be read.
\<close>

theorem bpf_trace_printk_string_arg:
  assumes ok: "valid_format fmt"
    and s: "j + 1 < length fmt" "fmt ! j = c_percent" "fmt ! (j + 1) = c_s"
  shows "\<exists>call. bpf_trace_printk mem frame fmt r3 r4 r5 = Inr call \<and>
           count_pct fmt j < 3 \<and>
           pk_args call ! count_pct fmt j = buf_addr frame \<and>
           pk_buf call = snd (strncpy_from_unsafe mem ((buf_init frame)[0 := 0])
                                ([r3, r4, r5] ! count_pct fmt j) 64) \<and>
           (fst (strncpy_from_unsafe mem ((buf_init frame)[0 := 0])
                   ([r3, r4, r5] ! count_pct fmt j) 64) = Inl EFAULT \<longrightarrow>
              c_string (pk_buf call) = fst (read_string mem ([r3, r4, r5] ! count_pct fmt j) 64)) \<and>
           (mem ([r3, r4, r5] ! count_pct fmt j) = None \<longrightarrow> c_string (pk_buf call) = [])"
proof -
  let ?n = "length fmt - 1"
  let ?init = "\<lparr> l_i = 0, l_fmt_cnt = 0, l_mod = [0, 0, 0], l_str_seen = False,
       l_unsafe_addr = unsafe_addr_init frame,
       l_r3 = r3, l_r4 = r4, l_r5 = r5, l_buf = buf_init frame \<rparr>"
  let ?k = "count_pct fmt j"
  let ?a = "[r3, r4, r5] ! ?k"
  let ?copy = "strncpy_from_unsafe mem ((buf_init frame)[0 := 0]) ?a 64"
  have nul: "fmt ! ?n = 0" by (rule valid_format_nul [OF ok])
  have "valid_format_from (drop (l_i ?init) fmt) (l_fmt_cnt ?init) (l_str_seen ?init)"
    using ok by (simp add: valid_format_def)
  from printk_loop_accepts [OF this]
  obtain st where l: "printk_loop mem frame fmt ?n ?init = Inr st"
    by blast
  define call where "call = \<lparr> pk_fmt = fmt,
        pk_args = [printk_arg (l_mod st ! 0) (l_r3 st), printk_arg (l_mod st ! 1) (l_r4 st),
                   printk_arg (l_mod st ! 2) (l_r5 st)],
        pk_buf = l_buf st \<rparr>"
  have res: "bpf_trace_printk mem frame fmt r3 r4 r5 = Inr call"
    using nul l by (simp add: bpf_trace_printk_def Let_def call_def)
  from printk_loop_inv [OF printk_inv_init l]
  have inv: "printk_inv mem frame fmt r3 r4 r5 st" and fin: "?n \<le> l_i st"
    by simp_all
  have jlt: "j < l_i st" using s(1) fin by simp
  have seen: "l_str_seen st"
  proof (rule ccontr)
    assume "\<not> l_str_seen st"
    with inv have "\<forall>j. j < l_i st \<and> fmt ! j = c_percent \<longrightarrow> fmt ! (j + 1) \<noteq> c_s"
      by (simp add: printk_inv_def)
    then show False using jlt s(2,3) by blast
  qed
  from inv have len: "length (l_mod st) = 3" by (simp add: printk_inv_def)
  from inv seen have "\<exists>j. j < l_i st \<and> fmt ! j = c_percent \<and> fmt ! (j + 1) = c_s \<and>
            count_pct fmt j < 3 \<and>
            (\<forall>j'. j' < l_i st \<and> fmt ! j' = c_percent \<and> fmt ! (j' + 1) = c_s \<longrightarrow> j' = j) \<and>
            [l_r3 st, l_r4 st, l_r5 st] ! count_pct fmt j = buf_addr frame \<and>
            l_mod st ! count_pct fmt j = 1 \<and>
            l_buf st = snd (strncpy_from_unsafe mem ((buf_init frame)[0 := 0])
                         ([r3, r4, r5] ! count_pct fmt j) 64)"
    unfolding printk_inv_def by (simp only: if_True)
  then obtain j0 where jall: "j0 < l_i st \<and> fmt ! j0 = c_percent \<and> fmt ! (j0 + 1) = c_s \<and>
            count_pct fmt j0 < 3 \<and>
            (\<forall>j'. j' < l_i st \<and> fmt ! j' = c_percent \<and> fmt ! (j' + 1) = c_s \<longrightarrow> j' = j0) \<and>
            [l_r3 st, l_r4 st, l_r5 st] ! count_pct fmt j0 = buf_addr frame \<and>
            l_mod st ! count_pct fmt j0 = 1 \<and>
            l_buf st = snd (strncpy_from_unsafe mem ((buf_init frame)[0 := 0])
                         ([r3, r4, r5] ! count_pct fmt j0) 64)"
    by (rule exE)
  note rest = jall [THEN conjunct2, THEN conjunct2, THEN conjunct2]
  have "j = j0"
    using rest [THEN conjunct2, THEN conjunct1, rule_format, of j] jlt s(2,3) by blast
  note rest' = rest [folded \<open>j = j0\<close>]
  have k3: "?k < 3" by (rule rest' [THEN conjunct1])
  have reg: "[l_r3 st, l_r4 st, l_r5 st] ! ?k = buf_addr frame"
    by (rule rest' [THEN conjunct2, THEN conjunct2, THEN conjunct1])
  have m1: "l_mod st ! ?k = 1"
    by (rule rest' [THEN conjunct2, THEN conjunct2, THEN conjunct2, THEN conjunct1])
  have buf: "l_buf st = snd ?copy"
    by (rule rest' [THEN conjunct2, THEN conjunct2, THEN conjunct2, THEN conjunct2])
  have mk: "[l_mod st ! 0, l_mod st ! 1, l_mod st ! 2] ! ?k = l_mod st ! ?k"
    using list3 [OF len] by simp
  have "pk_args call ! ?k = printk_arg (l_mod st ! ?k) ([l_r3 st, l_r4 st, l_r5 st] ! ?k)"
    unfolding call_def using nth3 [OF k3, of printk_arg] mk by simp
  then have arg: "pk_args call ! ?k = buf_addr frame"
    unfolding m1 reg by (simp add: printk_arg_def)
  have pb: "pk_buf call = snd ?copy" using buf by (simp add: call_def)
  have part: "c_string (pk_buf call) = fst (read_string mem ?a 64)" if "fst ?copy = Inl EFAULT"
    unfolding pb by (rule strncpy_from_unsafe_fault [OF that, THEN conjunct2, THEN conjunct2])
  have empty: "c_string (pk_buf call) = []" if "mem ?a = None"
  proof -
    have r: "read_string mem ?a 64 = ([], True)"
      using that by (simp add: read_string_unreadable)
    then have "fst ?copy = Inl EFAULT" by (simp add: strncpy_from_unsafe_def)
    from part [OF this] show ?thesis unfolding r by simp
  qed
  show ?thesis
    using res k3 arg pb part empty by (intro exI [of _ call]) blast
qed

theorem bpf_trace_printk_string_arg_witness:
  "valid_format fmt_ex \<and> 3 + 1 < length fmt_ex \<and> fmt_ex ! 3 = c_percent \<and> fmt_ex ! (3 + 1) = c_s \<and>
   count_pct fmt_ex 3 = 1 \<and>
   fst (strncpy_from_unsafe mem_fault ((buf_init frame_ex)[0 := 0]) 0x1000 64) = Inl EFAULT \<and>
   fst (read_string mem_fault 0x1000 64) = [0x68, 0x69] \<and>
   mem_ex 0x2000 = None \<and>
   (\<exists>call. bpf_trace_printk mem_fault frame_ex fmt_ex 7 0x1000 9 = Inr call \<and>
      pk_args call ! 1 = buf_addr frame_ex \<and> c_string (pk_buf call) = [0x68, 0x69]) \<and>
   (\<exists>call. bpf_trace_printk mem_ex frame_ex fmt_ex 7 0x2000 9 = Inr call \<and>
      pk_args call ! 1 = buf_addr frame_ex \<and> c_string (pk_buf call) = []) \<and>
   valid_format fmt_s \<and> fmt_s ! 0 = c_percent \<and> fmt_s ! (0 + 1) = c_s \<and> count_pct fmt_s 0 = 0 \<and>
   (\<exists>call. bpf_trace_printk mem_ex frame_ex fmt_s 0x2000 8 9 = Inr call \<and>
      pk_args call ! 0 = buf_addr frame_ex \<and> c_string (pk_buf call) = []) \<and>
   valid_format fmt_p_s \<and> fmt_p_s ! 3 = c_percent \<and> fmt_p_s ! (3 + 1) = c_s \<and>
   (\<exists>call. bpf_trace_printk mem_ex frame_ex fmt_p_s 7 0x2000 9 = Inr call) \<and>
   valid_format fmt_s_d \<and> fmt_s_d ! 0 = c_percent \<and> fmt_s_d ! (0 + 1) = c_s \<and>
   (\<exists>call. bpf_trace_printk mem_ex frame_ex fmt_s_d 0x2000 8 9 = Inr call)"
proof -
  have ok: "valid_format fmt_ex" "valid_format fmt_s" "valid_format fmt_p_s" "valid_format fmt_s_d"
    by code_simp+
  have s: "3 + 1 < length fmt_ex" "fmt_ex ! 3 = c_percent" "fmt_ex ! (3 + 1) = c_s"
    by (simp_all add: fmt_ex_def chars)
  have s1: "0 + 1 < length fmt_s" "fmt_s ! 0 = c_percent" "fmt_s ! (0 + 1) = c_s"
    by (simp_all add: fmt_s_def chars)
  have s2: "3 + 1 < length fmt_p_s" "fmt_p_s ! 3 = c_percent" "fmt_p_s ! (3 + 1) = c_s"
    by (simp_all add: fmt_p_s_def chars)
  have s3: "0 + 1 < length fmt_s_d" "fmt_s_d ! 0 = c_percent" "fmt_s_d ! (0 + 1) = c_s"
    by (simp_all add: fmt_s_d_def chars)
  have k: "count_pct fmt_ex 3 = 1"
    by code_simp
  have k1: "count_pct fmt_s 0 = 0"
    by code_simp
  have fault: "fst (strncpy_from_unsafe mem_fault ((buf_init frame_ex)[0 := 0]) 0x1000 64) = Inl EFAULT"
    by code_simp
  have rd: "fst (read_string mem_fault 0x1000 64) = [0x68, 0x69]"
    by code_simp
  have un: "mem_ex 0x2000 = None"
    by (simp add: mem_ex_def)
  from bpf_trace_printk_string_arg [OF ok(1) s, of mem_fault frame_ex 7 "0x1000" 9]
  obtain c1 where c1: "bpf_trace_printk mem_fault frame_ex fmt_ex 7 0x1000 9 = Inr c1"
    and a1: "pk_args c1 ! count_pct fmt_ex 3 = buf_addr frame_ex"
    and e1: "fst (strncpy_from_unsafe mem_fault ((buf_init frame_ex)[0 := 0])
                   ([7, 0x1000, 9] ! count_pct fmt_ex 3) 64) = Inl EFAULT \<longrightarrow>
            c_string (pk_buf c1) = fst (read_string mem_fault ([7, 0x1000, 9] ! count_pct fmt_ex 3) 64)"
    by (elim exE conjE) (rule that)
  have "c_string (pk_buf c1) = [0x68, 0x69]"
    using e1 fault rd unfolding k by simp
  with c1 a1 have p1: "\<exists>call. bpf_trace_printk mem_fault frame_ex fmt_ex 7 0x1000 9 = Inr call \<and>
      pk_args call ! 1 = buf_addr frame_ex \<and> c_string (pk_buf call) = [0x68, 0x69]"
    unfolding k by blast
  from bpf_trace_printk_string_arg [OF ok(1) s, of mem_ex frame_ex 7 "0x2000" 9]
  obtain c2 where c2: "bpf_trace_printk mem_ex frame_ex fmt_ex 7 0x2000 9 = Inr c2"
    and a2: "pk_args c2 ! count_pct fmt_ex 3 = buf_addr frame_ex"
    and e2: "mem_ex ([7, 0x2000, 9] ! count_pct fmt_ex 3) = None \<longrightarrow> c_string (pk_buf c2) = []"
    by (elim exE conjE) (rule that)
  have "c_string (pk_buf c2) = []"
    using e2 un unfolding k by simp
  with c2 a2 have p2: "\<exists>call. bpf_trace_printk mem_ex frame_ex fmt_ex 7 0x2000 9 = Inr call \<and>
      pk_args call ! 1 = buf_addr frame_ex \<and> c_string (pk_buf call) = []"
    unfolding k by blast
  from bpf_trace_printk_string_arg [OF ok(2) s1, of mem_ex frame_ex "0x2000" 8 9]
  obtain c3 where c3: "bpf_trace_printk mem_ex frame_ex fmt_s 0x2000 8 9 = Inr c3"
    and a3: "pk_args c3 ! count_pct fmt_s 0 = buf_addr frame_ex"
    and e3: "mem_ex ([0x2000, 8, 9] ! count_pct fmt_s 0) = None \<longrightarrow> c_string (pk_buf c3) = []"
    by (elim exE conjE) (rule that)
  have "c_string (pk_buf c3) = []"
    using e3 un unfolding k1 by simp
  with c3 a3 have p3: "\<exists>call. bpf_trace_printk mem_ex frame_ex fmt_s 0x2000 8 9 = Inr call \<and>
      pk_args call ! 0 = buf_addr frame_ex \<and> c_string (pk_buf call) = []"
    unfolding k1 by blast
  from bpf_trace_printk_string_arg [OF ok(3) s2, of mem_ex frame_ex 7 "0x2000" 9]
  have p4: "\<exists>call. bpf_trace_printk mem_ex frame_ex fmt_p_s 7 0x2000 9 = Inr call"
    by (elim exE conjE) (rule exI)
  from bpf_trace_printk_string_arg [OF ok(4) s3, of mem_ex frame_ex "0x2000" 8 9]
  have p5: "\<exists>call. bpf_trace_printk mem_ex frame_ex fmt_s_d 0x2000 8 9 = Inr call"
    by (elim exE conjE) (rule exI)
  show ?thesis
    by (intro conjI) (rule ok s s1 s2 s3 k k1 fault rd un p1 p2 p3 p4 p5)+
qed

end
